theory Spec2Isabelle
  imports Complex_Main "HOL-Library.AList"
begin

section \<open>Data model\<close>

text \<open>
  The exceptions the Python code can raise on the paths modelled here.
\<close>

datatype error =
  AssertionError | IndexError | KeyError | ZeroDivisionError | ValueError | OverflowError

text \<open>
  Row labels of a pandas frame: the positions of a range index, or a name such as
  \<open>Totals\<close>.
\<close>

datatype label = Pos nat | Name string

text \<open>
  A pandas \<open>DataFrame\<close>, column by column as pandas stores it: the row labels, and each
  column label with its cells. In a well-formed frame every column has one cell per row label.
  The reward frame's column \<open>Model i\<close> is labelled by \<open>i\<close>.
\<close>

record ('c, 'v) dataframe =
  df_index :: "label list"
  df_data :: "('c \<times> 'v list) list"

definition df_columns :: "('c, 'v) dataframe \<Rightarrow> 'c list" where
  "df_columns df = map fst (df_data df)"

definition df_len :: "('c, 'v) dataframe \<Rightarrow> nat" where
  "df_len df = length (df_index df)"

definition well_formed :: "('c, 'v) dataframe \<Rightarrow> bool" where
  "well_formed df = list_all (\<lambda>c. length (snd c) = length (df_index df)) (df_data df)"

text \<open>\<open>data.values[n, j]\<close>: a read outside the array raises \<open>IndexError\<close>.\<close>

definition values_at :: "('c, 'v) dataframe \<Rightarrow> nat \<Rightarrow> nat \<Rightarrow> error + 'v" where
  "values_at df n j =
     (if j < length (df_data df) \<and> n < length (snd (df_data df ! j))
      then Inr (snd (df_data df ! j) ! n) else Inl IndexError)"

text \<open>
  A Python \<open>dict\<close> with integer keys and values, in insertion order. \<open>dict(Counter(xs))\<close>
  counts the elements of \<open>xs\<close>; a key enters the dictionary at its first occurrence.
\<close>

type_synonym counts = "(nat \<times> int) list"

definition dict_get :: "counts \<Rightarrow> nat \<Rightarrow> int \<Rightarrow> int" where
  "dict_get d k dflt = (case map_of d k of None \<Rightarrow> dflt | Some v \<Rightarrow> v)"

definition Counter :: "nat list \<Rightarrow> counts" where
  "Counter xs = fold (\<lambda>x d. AList.update x (dict_get d x 0 + 1) d) xs []"

section \<open>Thompson Sampling allocator\<close>

text \<open>
  \<open>random.betavariate\<close> reads and advances the state of the random source. The source is a
  parameter of the model: a function from its state and the two shape parameters to the
  sample and the next state, or to the exception the library raises.
\<close>

type_synonym 'g betavariate = "'g \<Rightarrow> int \<Rightarrow> int \<Rightarrow> error + (real \<times> 'g)"

text \<open>
  The scan over the models for one observation row: the loop \<open>for i in range(0, no_of_models)\<close>
  with its variables \<open>bandit\<close> and \<open>beta_max\<close>, and the state of the random source.
\<close>

fun select_bandit ::
  "'g betavariate \<Rightarrow> int list \<Rightarrow> int list \<Rightarrow> nat list \<Rightarrow> nat \<times> real \<times> 'g
     \<Rightarrow> error + (nat \<times> real \<times> 'g)" where
  "select_bandit bv rewards penalties [] s = Inr s"
| "select_bandit bv rewards penalties (i # is) (bandit, beta_max, g) =
     (if length rewards \<le> i \<or> length penalties \<le> i then Inl IndexError
      else case bv g (rewards ! i + 1) (penalties ! i + 1) of
             Inl e \<Rightarrow> Inl e
           | Inr (beta_d, g') \<Rightarrow>
               if beta_d > beta_max
               then select_bandit bv rewards penalties is (i, beta_d, g')
               else select_bandit bv rewards penalties is (bandit, beta_max, g'))"

text \<open>
  The loop over the observation rows. Its state is \<open>model_selected\<close>, the two counter lists
  (which the Python mutates in place; the driver passes two separate lists) and the random
  source. An exception ends the loop and is the result.
\<close>

fun ts_rows ::
  "'g betavariate \<Rightarrow> ('c, int) dataframe \<Rightarrow> nat \<Rightarrow> nat list
     \<Rightarrow> nat list \<times> int list \<times> int list \<times> 'g
     \<Rightarrow> error + (nat list \<times> int list \<times> int list \<times> 'g)" where
  "ts_rows bv data no_of_models [] s = Inr s"
| "ts_rows bv data no_of_models (n # ns) (model_selected, rewards, penalties, g) =
     (case select_bandit bv rewards penalties [0..<no_of_models] (0, 0, g) of
        Inl e \<Rightarrow> Inl e
      | Inr (bandit, beta_max, g') \<Rightarrow>
          (case values_at data n bandit of
             Inl e \<Rightarrow> Inl e
           | Inr reward \<Rightarrow>
               if reward = 1 then
                 (if bandit < length rewards
                  then ts_rows bv data no_of_models ns
                         (model_selected @ [bandit],
                          rewards[bandit := rewards ! bandit + 1], penalties, g')
                  else Inl IndexError)
               else
                 (if bandit < length penalties
                  then ts_rows bv data no_of_models ns
                         (model_selected @ [bandit],
                          rewards, penalties[bandit := penalties ! bandit + 1], g')
                  else Inl IndexError)))"

definition thompson_sampling_experiment ::
  "'g betavariate \<Rightarrow> 'g \<Rightarrow> ('c, int) dataframe \<Rightarrow> real list \<Rightarrow> int list \<Rightarrow> int list
     \<Rightarrow> error + (counts \<times> int list \<times> int list \<times> 'g)" where
  "thompson_sampling_experiment bv g data model_accuracies rewards penalties =
     (let no_of_observations = df_len data;
          no_of_models = length (df_columns data)
      in if no_of_models \<noteq> length model_accuracies then Inl AssertionError
         else case ts_rows bv data no_of_models [0..<no_of_observations]
                     ([], rewards, penalties, g) of
                Inl e \<Rightarrow> Inl e
              | Inr (model_selected, rewards', penalties', g') \<Rightarrow>
                  Inr (Counter model_selected, rewards', penalties', g'))"

text \<open>
  The samples one row's scan draws, in index order, from the same source and counters.
  It serves to state which draw the scan selects.
\<close>

fun row_samples ::
  "'g betavariate \<Rightarrow> int list \<Rightarrow> int list \<Rightarrow> nat list \<Rightarrow> 'g \<Rightarrow> error + (real list \<times> 'g)" where
  "row_samples bv rewards penalties [] g = Inr ([], g)"
| "row_samples bv rewards penalties (i # is) g =
     (if length rewards \<le> i \<or> length penalties \<le> i then Inl IndexError
      else case bv g (rewards ! i + 1) (penalties ! i + 1) of
             Inl e \<Rightarrow> Inl e
           | Inr (beta_d, g') \<Rightarrow>
               (case row_samples bv rewards penalties is g' of
                  Inl e \<Rightarrow> Inl e
                | Inr (ds, g'') \<Rightarrow> Inr (beta_d # ds, g'')))"

text \<open>The comparisons of the scan alone, over index and sample pairs.\<close>

fun scan_max :: "(nat \<times> real) list \<Rightarrow> nat \<times> real \<Rightarrow> nat \<times> real" where
  "scan_max [] s = s"
| "scan_max ((i, beta_d) # xs) (bandit, beta_max) =
     (if beta_d > beta_max then scan_max xs (i, beta_d) else scan_max xs (bandit, beta_max))"

text \<open>
  The rows of a step in which model \<open>i\<close> was selected and its reward cell was 1, and those
  in which it was selected and the cell was anything else.
\<close>

definition rewarded :: "('c, int) dataframe \<Rightarrow> nat list \<Rightarrow> nat list \<Rightarrow> nat \<Rightarrow> nat" where
  "rewarded data ns sel i =
     length (filter (\<lambda>(n, b). b = i \<and> values_at data n b = Inr 1) (zip ns sel))"

definition penalised :: "('c, int) dataframe \<Rightarrow> nat list \<Rightarrow> nat list \<Rightarrow> nat \<Rightarrow> nat" where
  "penalised data ns sel i =
     length (filter (\<lambda>(n, b). b = i \<and> values_at data n b \<noteq> Inr 1) (zip ns sel))"

text \<open>
  A random source for concrete runs: it hands out the mean of the Beta distribution it is
  asked to sample, and counts its calls. Like the library, it rejects a shape parameter
  that is not positive.
\<close>

definition posterior_mean_source :: "nat betavariate" where
  "posterior_mean_source g a b =
     (if a \<le> 0 \<or> b \<le> 0 then Inl ValueError
      else Inr (real_of_int a / real_of_int (a + b), Suc g))"

section \<open>Machine arithmetic\<close>

subsection \<open>Floating point\<close>

text \<open>
  Python floats are taken as the reals they denote. The float operations the code uses
  round their results, so they are parameters of the model: division, multiplication and
  subtraction of floats, the conversion of a table cell from \<open>int64\<close> to \<open>float64\<close>, and the
  conversion back that \<open>astype(int)\<close> performs. \<open>np.floor\<close> and rounding to a whole number
  are exact.
\<close>

record float_ops =
  fdiv :: "real \<Rightarrow> real \<Rightarrow> real"
  fmul :: "real \<Rightarrow> real \<Rightarrow> real"
  fsub :: "real \<Rightarrow> real \<Rightarrow> real"
  itof :: "int \<Rightarrow> real"
  ftoi :: "real \<Rightarrow> int"

text \<open>Arithmetic without rounding error, for concrete runs.\<close>

definition exact_ops :: float_ops where
  "exact_ops = \<lparr>fdiv = (\<lambda>x y. x / y), fmul = (\<lambda>x y. x * y), fsub = (\<lambda>x y. x - y),
                itof = (\<lambda>v. real_of_int v), ftoi = (\<lambda>x. \<lfloor>x\<rfloor>)\<rparr>"


text \<open>\<open>Series.round()\<close>: numpy rounds a half to the even neighbour.\<close>

definition round_half_even :: "real \<Rightarrow> int" where
  "round_half_even x =
     (let f = \<lfloor>x\<rfloor>; d = x - of_int f
      in if d < 1 / 2 then f
         else if 1 / 2 < d then f + 1
         else if even f then f else f + 1)"

subsection \<open>64-bit integers\<close>

text \<open>
  The cells of an integer frame are \<open>int64\<close>: numpy computes sums and products modulo
  \<open>2 ^ 64\<close> and reads the result as a signed number, without a warning.
\<close>

definition int64 :: "int \<Rightarrow> int" where
  "int64 x = (x + 2 ^ 63) mod 2 ^ 64 - 2 ^ 63"

definition in_int64 :: "int \<Rightarrow> bool" where
  "in_int64 x \<longleftrightarrow> - (2 ^ 63) \<le> x \<and> x < 2 ^ 63"


section \<open>Control allocator\<close>

text \<open>The loop \<open>for i in range(diff): count_of_model_selected[i] += 1\<close>.\<close>

fun increment_first :: "nat list \<Rightarrow> counts \<Rightarrow> error + counts" where
  "increment_first [] d = Inr d"
| "increment_first (i # is) d =
     (case map_of d i of
        None \<Rightarrow> Inl KeyError
      | Some v \<Rightarrow> increment_first is (AList.update i (v + 1) d))"

definition control_experiment ::
  "float_ops \<Rightarrow> ('c, 'v) dataframe \<Rightarrow> real list \<Rightarrow> error + counts" where
  "control_experiment F data model_accuracies =
     (if length model_accuracies = 0 then Inl ZeroDivisionError
      else
        let percentage_split = fdiv F 1 (real (length model_accuracies));
            count_of_model_selected =
              fold (\<lambda>i d. AList.update i \<lfloor>fmul F (real (df_len data)) percentage_split\<rfloor> d)
                [0..<length model_accuracies] [];
            diff = int (df_len data) - sum_list (map snd count_of_model_selected)
        in if diff \<noteq> 0 then increment_first [0..<nat diff] count_of_model_selected
           else Inr count_of_model_selected)"

section \<open>Reward generator\<close>

text \<open>
  \<open>rng.binomial(n, p, size)\<close> of numpy, a parameter like the Beta source: it returns the
  array of draws and the next state of the generator, or raises.
\<close>

type_synonym 'g binomial = "'g \<Rightarrow> int \<Rightarrow> real \<Rightarrow> int \<Rightarrow> error + (int list \<times> 'g)"

text \<open>The loop that fills \<open>data\<close>, one column per model, from index \<open>i\<close> on.\<close>

fun draw_columns ::
  "'g binomial \<Rightarrow> 'g \<Rightarrow> nat \<Rightarrow> real list \<Rightarrow> int \<Rightarrow> error + ((nat \<times> int list) list \<times> 'g)" where
  "draw_columns bn g i [] no_of_rewards = Inr ([], g)"
| "draw_columns bn g i (p # ps) no_of_rewards =
     (case bn g 1 p no_of_rewards of
        Inl e \<Rightarrow> Inl e
      | Inr (col, g') \<Rightarrow>
          (case draw_columns bn g' (Suc i) ps no_of_rewards of
             Inl e \<Rightarrow> Inl e
           | Inr (cols, g'') \<Rightarrow> Inr ((i, col) # cols, g'')))"

text \<open>
  \<open>pd.DataFrame(dict)\<close> of a dictionary of arrays: the arrays are the columns, the index is
  the range of their common length, and arrays of different lengths are refused.
\<close>

definition DataFrame_of_columns :: "('c \<times> 'v list) list \<Rightarrow> error + ('c, 'v) dataframe" where
  "DataFrame_of_columns cols =
     (case cols of
        [] \<Rightarrow> Inr \<lparr>df_index = [], df_data = []\<rparr>
      | c # cs \<Rightarrow>
          if list_all (\<lambda>c'. length (snd c') = length (snd c)) cs
          then Inr \<lparr>df_index = map Pos [0..<length (snd c)], df_data = cols\<rparr>
          else Inl ValueError)"

definition create_simulated_reward_data ::
  "'g binomial \<Rightarrow> 'g \<Rightarrow> real list \<Rightarrow> int \<Rightarrow> error + (nat, int) dataframe" where
  "create_simulated_reward_data bn rng model_accuracies no_of_rewards =
     (case draw_columns bn rng 0 model_accuracies no_of_rewards of
        Inl e \<Rightarrow> Inl e
      | Inr (data, rng') \<Rightarrow> DataFrame_of_columns data)"

text \<open>
  A generator for concrete runs with numpy's argument checks: a probability outside
  \<open>[0, 1]\<close> or a negative size is a \<open>ValueError\<close>, and size 0 gives the empty array. It
  draws 1 exactly when the probability is at least one half.
\<close>

definition threshold_binomial :: "nat binomial" where
  "threshold_binomial g n p sz =
     (if p < 0 \<or> 1 < p \<or> sz < 0 then Inl ValueError
      else Inr (replicate (nat sz) (if 1 / 2 \<le> p then n else 0), Suc g))"

section \<open>Aggregator\<close>

text \<open>
  \<open>pd.DataFrame(list of dicts)\<close>: one row per dictionary, one column per key in order of
  first appearance, and a missing value (\<open>NaN\<close>, here \<open>None\<close>) where a dictionary lacks the key.
\<close>

definition key_union :: "counts list \<Rightarrow> nat list" where
  "key_union series = rev (remdups (rev (concat (map (map fst) series))))"

definition DataFrame_of_records :: "counts list \<Rightarrow> (nat, int option) dataframe" where
  "DataFrame_of_records series =
     \<lparr>df_index = map Pos [0..<length series],
      df_data = map (\<lambda>k. (k, map (\<lambda>d. map_of d k) series)) (key_union series)\<rparr>"

text \<open>
  The dtype of a column. pandas infers it from the values that are present: Python integers
  within the \<open>int64\<close> range give an \<open>int64\<close> column; integers from \<open>0\<close> up to \<open>2 ^ 64 - 1\<close>,
  one of them above the \<open>int64\<close> range, give a \<open>uint64\<close> column; an integer outside both
  ranges, or a negative integer beside one above the \<open>int64\<close> range, leaves a column of
  Python objects. A missing value turns a column that is not of objects into \<open>float64\<close>.
\<close>

definition object_column :: "int option list \<Rightarrow> bool" where
  "object_column col \<longleftrightarrow>
     list_ex (\<lambda>c. case c of None \<Rightarrow> False | Some v \<Rightarrow> v < - (2 ^ 63) \<or> 2 ^ 64 \<le> v) col \<or>
     (list_ex (\<lambda>c. case c of None \<Rightarrow> False | Some v \<Rightarrow> 2 ^ 63 \<le> v) col \<and>
      list_ex (\<lambda>c. case c of None \<Rightarrow> False | Some v \<Rightarrow> v < 0) col)"

text \<open>
  One column through \<open>fillna(0)\<close> and \<open>astype(int)\<close>. A column of objects holds an integer
  that does not fit \<open>int64\<close>, and \<open>astype(int)\<close> raises \<open>OverflowError\<close> for it. A column with
  a missing value is \<open>float64\<close>: its counts were converted to floats, the missing ones become
  \<open>0.0\<close>, and \<open>astype(int)\<close> converts every cell back. A column in which every dictionary
  has the key keeps its counts when it is \<open>int64\<close>; the cast of a \<open>uint64\<close> column reads each
  count as a signed number.
\<close>

definition fillna_astype_int :: "float_ops \<Rightarrow> int option list \<Rightarrow> error + int list" where
  "fillna_astype_int F col =
     (if object_column col then Inl OverflowError
      else if None \<in> set col
      then Inr (map (\<lambda>c. ftoi F (case c of None \<Rightarrow> 0 | Some v \<Rightarrow> itof F v)) col)
      else Inr (map (\<lambda>c. case c of None \<Rightarrow> 0 | Some v \<Rightarrow> int64 v) col))"

fun int_columns ::
  "float_ops \<Rightarrow> ('c \<times> int option list) list \<Rightarrow> error + ('c \<times> int list) list" where
  "int_columns F [] = Inr []"
| "int_columns F ((k, col) # cols) =
     (case fillna_astype_int F col of
        Inl e \<Rightarrow> Inl e
      | Inr c \<Rightarrow>
          (case int_columns F cols of
             Inl e \<Rightarrow> Inl e
           | Inr cs \<Rightarrow> Inr ((k, c) # cs)))"

text \<open>
  \<open>df.loc[name] = df.sum(axis=0)\<close> for a name that is not yet a row label: the row of column
  sums, computed in \<open>int64\<close>, is appended under that label. pandas refuses to enlarge a frame
  that has no columns.
\<close>

definition append_sum_row :: "string \<Rightarrow> ('c, int) dataframe \<Rightarrow> error + ('c, int) dataframe" where
  "append_sum_row name df =
     (if df_data df = [] then Inl ValueError
      else Inr \<lparr>df_index = df_index df @ [Name name],
                df_data = map (\<lambda>(k, col). (k, col @ [int64 (sum_list col)])) (df_data df)\<rparr>)"

text \<open>The index of the frame is a range, so \<open>Totals\<close> is a new label.\<close>

definition format_as_dataframe :: "float_ops \<Rightarrow> counts list \<Rightarrow> error + (nat, int) dataframe" where
  "format_as_dataframe F series =
     (case int_columns F (df_data (DataFrame_of_records series)) of
        Inl e \<Rightarrow> Inl e
      | Inr cols \<Rightarrow>
          append_sum_row ''Totals''
            \<lparr>df_index = df_index (DataFrame_of_records series), df_data = cols\<rparr>)"

text \<open>
  One cell of \<open>(selected_df[i] * (1 - model_accuracies[i])).round().astype(int)\<close>: the count
  becomes a float, is multiplied by one minus the accuracy, rounded to a whole number and
  converted to \<open>int64\<close>.
\<close>

definition misclassified :: "float_ops \<Rightarrow> int \<Rightarrow> real \<Rightarrow> int" where
  "misclassified F c accuracy =
     ftoi F (real_of_int (round_half_even (fmul F (itof F c) (fsub F 1 accuracy))))"

text \<open>
  The loop over \<open>selected_df.columns\<close>. The column labels of a frame built by
  \<open>format_as_dataframe\<close> are distinct, so \<open>selected_df[i]\<close> is the column labelled \<open>i\<close>;
  \<open>model_accuracies[i]\<close> raises when there is no such accuracy.
\<close>

fun misclassification_columns ::
  "float_ops \<Rightarrow> (nat \<times> int list) list \<Rightarrow> real list \<Rightarrow> error + (nat \<times> int list) list" where
  "misclassification_columns F [] model_accuracies = Inr []"
| "misclassification_columns F ((i, col) # cols) model_accuracies =
     (if length model_accuracies \<le> i then Inl IndexError
      else case misclassification_columns F cols model_accuracies of
             Inl e \<Rightarrow> Inl e
           | Inr out \<Rightarrow>
               Inr ((i, map (\<lambda>c. misclassified F c (model_accuracies ! i)) col) # out))"

definition create_misclassification_df ::
  "float_ops \<Rightarrow> (nat, int) dataframe \<Rightarrow> real list \<Rightarrow> error + (nat, int) dataframe" where
  "create_misclassification_df F selected_df model_accuracies =
     (case misclassification_columns F (df_data selected_df) model_accuracies of
        Inl e \<Rightarrow> Inl e
      | Inr cols \<Rightarrow> Inr \<lparr>df_index = df_index selected_df, df_data = cols\<rparr>)"

section \<open>The calculator\<close>

text \<open>\<open>(NO_OF_REQUESTS // NO_OF_MODELS) // NO_OF_REWARDS\<close>, with Python's floor division.\<close>

definition scale_factor :: "int \<Rightarrow> int \<Rightarrow> int \<Rightarrow> error + int" where
  "scale_factor no_of_requests no_of_models no_of_rewards =
     (if no_of_models = 0 \<or> no_of_rewards = 0 then Inl ZeroDivisionError
      else Inr ((no_of_requests div no_of_models) div no_of_rewards))"

text \<open>
  An \<open>int64\<close> frame times a Python integer: every cell is multiplied in \<open>int64\<close>. The
  factor is a quotient of numbers from the form, which are below \<open>2 ^ 53\<close> in magnitude;
  numpy refuses to take a Python integer outside the \<open>int64\<close> range for an \<open>int64\<close>
  operand.
\<close>

definition df_times :: "('c, int) dataframe \<Rightarrow> int \<Rightarrow> error + ('c, int) dataframe" where
  "df_times df k =
     (if in_int64 k
      then Inr \<lparr>df_index = df_index df,
                df_data = map (\<lambda>(i, col). (i, map (\<lambda>c. int64 (c * k)) col)) (df_data df)\<rparr>
      else Inl OverflowError)"

text \<open>
  The misclassification table of either strategy: the allocation series is normalised,
  turned into misclassification counts and multiplied by the scale factor.
\<close>

definition misclassifications ::
  "float_ops \<Rightarrow> counts list \<Rightarrow> real list \<Rightarrow> int \<Rightarrow> int \<Rightarrow> int \<Rightarrow> error + (nat, int) dataframe" where
  "misclassifications F bandit_selected model_accuracies no_of_requests no_of_models no_of_rewards =
     (case format_as_dataframe F bandit_selected of
        Inl e \<Rightarrow> Inl e
      | Inr selected \<Rightarrow>
          (case create_misclassification_df F selected model_accuracies of
             Inl e \<Rightarrow> Inl e
           | Inr m \<Rightarrow>
               (case scale_factor no_of_requests no_of_models no_of_rewards of
                  Inl e \<Rightarrow> Inl e
                | Inr k \<Rightarrow> df_times m k)))"







section \<open>Properties of the Thompson Sampling allocator\<close>

subsection \<open>The scan of one row\<close>

lemma select_bandit_scan:
  "row_samples bv rw pn is g = Inr (ds, g') \<Longrightarrow>
   length ds = length is \<and>
   select_bandit bv rw pn is (b, m, g) = Inr (fst (scan_max (zip is ds) (b, m)), snd (scan_max (zip is ds) (b, m)), g')"
proof (induction "is" arbitrary: g ds b m)
  case Nil
  then show ?case by simp
next
  case (Cons i "is")
  then show ?case
    by (auto split: if_splits sum.splits prod.splits)
qed

lemma select_bandit_samples:
  "select_bandit bv rw pn is (b, m, g) = Inr (b', m', g') \<Longrightarrow>
   \<exists>ds. row_samples bv rw pn is g = Inr (ds, g')"
proof (induction "is" arbitrary: g b m)
  case Nil
  then show ?case by simp
next
  case (Cons i "is")
  then show ?case
    by (fastforce split: if_splits sum.splits prod.splits)
qed

lemma scan_max_spec:
  "scan_max (zip [k..<k + length ds] ds) (b, m) = (b', m') \<Longrightarrow>
   m \<le> m' \<and> (\<forall>d\<in>set ds. d \<le> m') \<and>
   ((b' = b \<and> m' = m) \<or>
    (\<exists>p<length ds. b' = k + p \<and> ds ! p = m' \<and> m < m' \<and> (\<forall>j<p. ds ! j < m')))"
proof (induction ds arbitrary: k b m)
  case Nil
  then show ?case by simp
next
  case (Cons d ds)
  let ?hit = "\<lambda>m. \<exists>p<length (d # ds). b' = k + p \<and> (d # ds) ! p = m' \<and> m < m'
                 \<and> (\<forall>j<p. (d # ds) ! j < m')"
  have up: "[k..<k + length (d # ds)] = k # [Suc k..<Suc k + length ds]"
    using upt_conv_Cons[of k "k + length (d # ds)"] by simp
  have later: "?hit m" if p: "p < length ds" "b' = Suc k + p" "ds ! p = m'" "\<forall>j<p. ds ! j < m'"
    and d: "d < m'" and m: "m < m'" for p
  proof -
    have "\<forall>j<Suc p. (d # ds) ! j < m'"
      using p(4) d by (auto simp: nth_Cons split: nat.splits)
    then have "Suc p < length (d # ds) \<and> b' = k + Suc p \<and> (d # ds) ! Suc p = m' \<and> m < m'
                 \<and> (\<forall>j<Suc p. (d # ds) ! j < m')"
      using p m by simp
    then show ?thesis by blast
  qed
  show ?case
  proof (cases "d > m")
    case True
    with Cons.prems up have "scan_max (zip [Suc k..<Suc k + length ds] ds) (k, d) = (b', m')"
      by simp
    from Cons.IH[OF this]
    have le: "d \<le> m'" and all: "\<forall>x\<in>set ds. x \<le> m'"
      and alt: "(b' = k \<and> m' = d) \<or>
        (\<exists>p<length ds. b' = Suc k + p \<and> ds ! p = m' \<and> d < m' \<and> (\<forall>j<p. ds ! j < m'))"
      by auto
    have mle: "m \<le> m'" using le True by simp
    have ball: "\<forall>x\<in>set (d # ds). x \<le> m'" using le all by simp
    from alt have "?hit m"
    proof
      assume "b' = k \<and> m' = d"
      then have "0 < length (d # ds) \<and> b' = k + 0 \<and> (d # ds) ! 0 = m' \<and> m < m'
                 \<and> (\<forall>j<0::nat. (d # ds) ! j < m')"
        using True by simp
      then show ?thesis by blast
    next
      assume "\<exists>p<length ds. b' = Suc k + p \<and> ds ! p = m' \<and> d < m' \<and> (\<forall>j<p. ds ! j < m')"
      then obtain p where p: "p < length ds" "b' = Suc k + p" "ds ! p = m'" "d < m'"
        "\<forall>j<p. ds ! j < m'" by blast
      show ?thesis using later[OF p(1,2,3,5) p(4)] p(4) True by simp
    qed
    with mle ball show ?thesis by blast
  next
    case False
    with Cons.prems up have "scan_max (zip [Suc k..<Suc k + length ds] ds) (b, m) = (b', m')"
      by simp
    from Cons.IH[OF this]
    have mle: "m \<le> m'" and all: "\<forall>x\<in>set ds. x \<le> m'"
      and alt: "(b' = b \<and> m' = m) \<or>
        (\<exists>p<length ds. b' = Suc k + p \<and> ds ! p = m' \<and> m < m' \<and> (\<forall>j<p. ds ! j < m'))"
      by auto
    have ball: "\<forall>x\<in>set (d # ds). x \<le> m'" using all False mle by auto
    from alt have "(b' = b \<and> m' = m) \<or> ?hit m"
    proof
      assume "b' = b \<and> m' = m"
      then show ?thesis by simp
    next
      assume "\<exists>p<length ds. b' = Suc k + p \<and> ds ! p = m' \<and> m < m' \<and> (\<forall>j<p. ds ! j < m')"
      then obtain p where p: "p < length ds" "b' = Suc k + p" "ds ! p = m'" "m < m'"
        "\<forall>j<p. ds ! j < m'" by blast
      have "d < m'" using False p(4) by simp
      from later[OF p(1,2,3,5) this p(4)] show ?thesis by blast
    qed
    with mle ball show ?thesis by blast
  qed
qed

subsection \<open>The loop over the rows\<close>

lemma row_samples_total:
  assumes bv: "\<forall>g a b. 0 < a \<and> 0 < b \<longrightarrow> (\<exists>r. bv g a b = Inr r)"
    and rw: "\<forall>x\<in>set rw. 0 \<le> x" and pn: "\<forall>x\<in>set pn. 0 \<le> x"
  shows "\<forall>i\<in>set is. i < length rw \<and> i < length pn \<Longrightarrow> \<exists>ds g'. row_samples bv rw pn is g = Inr (ds, g')"
proof (induction "is" arbitrary: g)
  case Nil
  then show ?case by simp
next
  case (Cons i "is")
  then have i: "i < length rw" "i < length pn" by simp_all
  then have "0 < rw ! i + 1" "0 < pn ! i + 1"
    using rw pn by (simp_all add: add_pos_nonneg add.commute)
  with bv obtain d g1 where d: "bv g (rw ! i + 1) (pn ! i + 1) = Inr (d, g1)"
    by (metis surj_pair)
  from Cons.IH[of g1] Cons.prems obtain ds g' where "row_samples bv rw pn is g1 = Inr (ds, g')"
    by auto
  with d i show ?case by simp
qed

lemma select_bandit_bound:
  assumes "select_bandit bv rw pn [0..<N] (0, 0, g) = Inr (bandit, beta_max, g')" and "0 < N"
  shows "bandit < N"
proof -
  from select_bandit_samples[OF assms(1)] obtain ds
    where ds: "row_samples bv rw pn [0..<N] g = Inr (ds, g')" by blast
  from select_bandit_scan[OF ds, of 0 0] assms(1)
  have len: "length ds = N" and sc: "scan_max (zip [0..<N] ds) (0, 0) = (bandit, beta_max)"
    by (simp_all add: prod_eq_iff)
  from scan_max_spec[of 0 ds 0 0 bandit beta_max] sc len assms(2) show ?thesis
    by auto
qed

lemma ts_rows_spec:
  "ts_rows bv data N ns (sel, rw, pn, g) = Inr (sel', rw', pn', g') \<Longrightarrow>
   \<exists>new. sel' = sel @ new \<and> length new = length ns \<and>
     length rw' = length rw \<and> length pn' = length pn \<and>
     (\<forall>b\<in>set new. b < length (df_data data)) \<and>
     (\<forall>i<length rw. rw' ! i = rw ! i + int (rewarded data ns new i)) \<and>
     (\<forall>i<length pn. pn' ! i = pn ! i + int (penalised data ns new i))"
proof (induction ns arbitrary: sel rw pn g)
  case Nil
  then show ?case by (simp add: rewarded_def penalised_def)
next
  case (Cons n ns)
  from Cons.prems obtain bandit beta_max g1 reward where
    sb: "select_bandit bv rw pn [0..<N] (0, 0, g) = Inr (bandit, beta_max, g1)"
    and va: "values_at data n bandit = Inr reward"
    by (auto split: sum.splits)
  from va have bd: "bandit < length (df_data data)"
    by (auto simp: values_at_def split: if_splits)
  show ?case
  proof (cases "reward = 1")
    case True
    with Cons.prems sb va have b: "bandit < length rw"
      and rec: "ts_rows bv data N ns (sel @ [bandit], rw[bandit := rw ! bandit + 1], pn, g1)
                  = Inr (sel', rw', pn', g')"
      by (auto split: if_splits)
    from Cons.IH[OF rec] obtain new where new:
      "sel' = (sel @ [bandit]) @ new" "length new = length ns"
      "length rw' = length rw" "length pn' = length pn"
      "\<forall>b\<in>set new. b < length (df_data data)"
      "\<forall>i<length rw. rw' ! i = rw[bandit := rw ! bandit + 1] ! i + int (rewarded data ns new i)"
      "\<forall>i<length pn. pn' ! i = pn ! i + int (penalised data ns new i)"
      by auto
    have r: "rewarded data (n # ns) (bandit # new) i
               = (if i = bandit then 1 else 0) + rewarded data ns new i" for i
      using va True by (auto simp: rewarded_def)
    have p: "penalised data (n # ns) (bandit # new) i = penalised data ns new i" for i
      using va True by (auto simp: penalised_def)
    have "sel' = sel @ (bandit # new)" using new(1) by simp
    moreover have "length (bandit # new) = length (n # ns)" using new(2) by simp
    moreover have "\<forall>b\<in>set (bandit # new). b < length (df_data data)" using new(5) bd by simp
    moreover have "\<forall>i<length rw. rw' ! i = rw ! i + int (rewarded data (n # ns) (bandit # new) i)"
      using new(6) b by (auto simp: r nth_list_update)
    moreover have "\<forall>i<length pn. pn' ! i = pn ! i + int (penalised data (n # ns) (bandit # new) i)"
      using new(7) by (simp add: p)
    ultimately show ?thesis using new(3,4) by blast
  next
    case False
    with Cons.prems sb va have b: "bandit < length pn"
      and rec: "ts_rows bv data N ns (sel @ [bandit], rw, pn[bandit := pn ! bandit + 1], g1)
                  = Inr (sel', rw', pn', g')"
      by (auto split: if_splits)
    from Cons.IH[OF rec] obtain new where new:
      "sel' = (sel @ [bandit]) @ new" "length new = length ns"
      "length rw' = length rw" "length pn' = length pn"
      "\<forall>b\<in>set new. b < length (df_data data)"
      "\<forall>i<length rw. rw' ! i = rw ! i + int (rewarded data ns new i)"
      "\<forall>i<length pn. pn' ! i = pn[bandit := pn ! bandit + 1] ! i + int (penalised data ns new i)"
      by auto
    have r: "rewarded data (n # ns) (bandit # new) i = rewarded data ns new i" for i
      using va False by (auto simp: rewarded_def)
    have p: "penalised data (n # ns) (bandit # new) i
               = (if i = bandit then 1 else 0) + penalised data ns new i" for i
      using va False by (auto simp: penalised_def)
    have "sel' = sel @ (bandit # new)" using new(1) by simp
    moreover have "length (bandit # new) = length (n # ns)" using new(2) by simp
    moreover have "\<forall>b\<in>set (bandit # new). b < length (df_data data)" using new(5) bd by simp
    moreover have "\<forall>i<length rw. rw' ! i = rw ! i + int (rewarded data (n # ns) (bandit # new) i)"
      using new(6) by (simp add: r)
    moreover have "\<forall>i<length pn. pn' ! i = pn ! i + int (penalised data (n # ns) (bandit # new) i)"
      using new(7) b by (auto simp: p nth_list_update)
    ultimately show ?thesis using new(3,4) by blast
  qed
qed

lemma rewarded_penalised_count:
  "length sel = length ns \<Longrightarrow> rewarded data ns sel i + penalised data ns sel i = count_list sel i"
proof (induction ns arbitrary: sel)
  case Nil
  then show ?case by (simp add: rewarded_def penalised_def)
next
  case (Cons n ns)
  then obtain b sel' where sel: "sel = b # sel'" "length sel' = length ns"
    by (cases sel) auto
  from Cons.IH[OF sel(2)] show ?case
    unfolding sel(1) rewarded_def penalised_def by auto
qed

subsection \<open>Counting the selections\<close>

lemma sum_update:
  "sum_list (map snd (AList.update k v d)) = sum_list (map snd d) - dict_get d k 0 + (v::int)"
  by (induction d) (auto simp: dict_get_def)

lemma dict_get_update:
  "dict_get (AList.update k v d) k' dflt = (if k' = k then v else dict_get d k' dflt)"
  by (simp add: dict_get_def update_conv')

lemma fold_counter_sum:
  "sum_list (map snd (fold (\<lambda>x d. AList.update x (dict_get d x 0 + 1) d) xs d))
     = sum_list (map snd d) + int (length xs)"
  by (induction xs arbitrary: d) (simp_all add: sum_update)

lemma fold_counter_get:
  "dict_get (fold (\<lambda>x d. AList.update x (dict_get d x 0 + 1) d) xs d) k 0
     = dict_get d k 0 + int (count_list xs k)"
  by (induction xs arbitrary: d) (simp_all add: dict_get_update)

lemma fold_counter_keys:
  "set (map fst (fold (\<lambda>x d. AList.update x (dict_get d x 0 + 1) d) xs d))
     = set (map fst d) \<union> set xs"
  by (induction xs arbitrary: d) (auto simp: dom_update)

lemma fold_counter_distinct:
  "distinct (map fst d) \<Longrightarrow>
   distinct (map fst (fold (\<lambda>x d. AList.update x (dict_get d x 0 + 1) d) xs d))"
  by (induction xs arbitrary: d) (simp_all add: distinct_update)

lemma Counter_sum: "sum_list (map snd (Counter xs)) = int (length xs)"
  by (simp add: Counter_def fold_counter_sum)

lemma Counter_get: "dict_get (Counter xs) k 0 = int (count_list xs k)"
  unfolding Counter_def by (subst fold_counter_get) (simp add: dict_get_def)

lemma Counter_keys: "set (map fst (Counter xs)) = set xs"
  using fold_counter_keys[of xs "[]"] by (simp add: Counter_def)

lemma Counter_distinct: "distinct (map fst (Counter xs))"
  by (simp add: Counter_def fold_counter_distinct)

lemma select_bandit_total:
  assumes bv: "\<forall>g a b. 0 < a \<and> 0 < b \<longrightarrow> (\<exists>r. bv g a b = Inr r)"
    and rw: "\<forall>x\<in>set rw. 0 \<le> x" and pn: "\<forall>x\<in>set pn. 0 \<le> x"
    and len: "N \<le> length rw" "N \<le> length pn" and N: "0 < N"
  shows "\<exists>bandit beta_max g'. select_bandit bv rw pn [0..<N] (0, 0, g) = Inr (bandit, beta_max, g')
           \<and> bandit < N"
proof -
  have "\<forall>i\<in>set [0..<N]. i < length rw \<and> i < length pn" using len by auto
  from row_samples_total[OF bv rw pn this] obtain ds g'
    where ds: "row_samples bv rw pn [0..<N] g = Inr (ds, g')" by blast
  from select_bandit_scan[OF ds, of 0 0] obtain bandit beta_max
    where sb: "select_bandit bv rw pn [0..<N] (0, 0, g) = Inr (bandit, beta_max, g')"
    by blast
  from select_bandit_bound[OF sb N] sb show ?thesis by blast
qed

lemma ts_rows_total:
  assumes bv: "\<forall>g a b. 0 < a \<and> 0 < b \<longrightarrow> (\<exists>r. bv g a b = Inr r)"
    and wf: "well_formed data" and N: "0 < N" "N = length (df_data data)"
  shows "\<forall>x\<in>set rw. 0 \<le> x \<Longrightarrow> \<forall>x\<in>set pn. 0 \<le> x \<Longrightarrow> N \<le> length rw \<Longrightarrow> N \<le> length pn \<Longrightarrow>
         \<forall>n\<in>set ns. n < df_len data \<Longrightarrow>
         \<exists>sel' rw' pn' g'. ts_rows bv data N ns (sel, rw, pn, g) = Inr (sel', rw', pn', g')"
proof (induction ns arbitrary: sel rw pn g)
  case Nil
  then show ?case by simp
next
  case (Cons n ns)
  from select_bandit_total[OF bv Cons.prems(1,2,3,4) N(1)] obtain bandit beta_max g1
    where sb: "select_bandit bv rw pn [0..<N] (0, 0, g) = Inr (bandit, beta_max, g1)"
      and bd: "bandit < N" by blast
  from Cons.prems(5) have n: "n < df_len data" by simp
  from wf bd N(2) have "length (snd (df_data data ! bandit)) = length (df_index data)"
    by (simp add: well_formed_def list_all_length)
  with n bd N(2) obtain reward where va: "values_at data n bandit = Inr reward"
    by (simp add: values_at_def df_len_def)
  have rest: "\<forall>n\<in>set ns. n < df_len data" using Cons.prems(5) by simp
  show ?case
  proof (cases "reward = 1")
    case True
    have nn: "\<forall>x\<in>set (rw[bandit := rw ! bandit + 1]). 0 \<le> x"
    proof
      fix x assume "x \<in> set (rw[bandit := rw ! bandit + 1])"
      then have "x \<in> insert (rw ! bandit + 1) (set rw)"
        using set_update_subset_insert by fastforce
      moreover have "0 \<le> rw ! bandit" using Cons.prems(1,3) bd by simp
      ultimately show "0 \<le> x" using Cons.prems(1) by auto
    qed
    from Cons.IH[OF nn Cons.prems(2) _ Cons.prems(4) rest, of "sel @ [bandit]" g1] Cons.prems(3)
    obtain sel' rw' pn' g' where "ts_rows bv data N ns (sel @ [bandit], rw[bandit := rw ! bandit + 1], pn, g1)
        = Inr (sel', rw', pn', g')"
      by auto
    with sb va True bd Cons.prems(3) show ?thesis by simp
  next
    case False
    have nn: "\<forall>x\<in>set (pn[bandit := pn ! bandit + 1]). 0 \<le> x"
    proof
      fix x assume "x \<in> set (pn[bandit := pn ! bandit + 1])"
      then have "x \<in> insert (pn ! bandit + 1) (set pn)"
        using set_update_subset_insert by fastforce
      moreover have "0 \<le> pn ! bandit" using Cons.prems(2,4) bd by simp
      ultimately show "0 \<le> x" using Cons.prems(2) by auto
    qed
    from Cons.IH[OF Cons.prems(1) nn Cons.prems(3) _ rest, of "sel @ [bandit]" g1] Cons.prems(4)
    obtain sel' rw' pn' g' where "ts_rows bv data N ns (sel @ [bandit], rw, pn[bandit := pn ! bandit + 1], g1)
        = Inr (sel', rw', pn', g')"
      by auto
    with sb va False bd Cons.prems(4) show ?thesis by simp
  qed
qed

subsection \<open>Selection of the first maximum\<close>

lemma select_bandit_first_maximum:
  assumes samples: "row_samples bv rewards penalties [0..<N] g = Inr (ds, g')"
    and nonneg: "\<forall>d\<in>set ds. 0 \<le> d"
    and models: "0 < N"
  shows "\<exists>bandit<N. length ds = N \<and>
           select_bandit bv rewards penalties [0..<N] (0, 0, g) = Inr (bandit, ds ! bandit, g') \<and>
           (\<forall>j<N. ds ! j \<le> ds ! bandit) \<and> (\<forall>j<bandit. ds ! j < ds ! bandit)"
proof -
  obtain b m where sc: "scan_max (zip [0..<N] ds) (0, 0) = (b, m)"
    by (cases "scan_max (zip [0..<N] ds) (0, 0)") blast
  from select_bandit_scan[OF samples, of 0 0] sc
  have len: "length ds = N"
    and sb: "select_bandit bv rewards penalties [0..<N] (0, 0, g) = Inr (b, m, g')"
    by simp_all
  from scan_max_spec[of 0 ds 0 0 b m] sc len
  have ub: "\<forall>d\<in>set ds. d \<le> m"
    and alt: "(b = 0 \<and> m = 0) \<or> (\<exists>p<length ds. b = p \<and> ds ! p = m \<and> (\<forall>j<p. ds ! j < m))"
    by auto
  from alt have sel: "b < N \<and> ds ! b = m \<and> (\<forall>j<b. ds ! j < m)"
  proof
    assume z: "b = 0 \<and> m = 0"
    have "ds ! 0 \<in> set ds" using len models by simp
    with ub nonneg z have "ds ! 0 = 0" by fastforce
    with z models show ?thesis by simp
  next
    assume "\<exists>p<length ds. b = p \<and> ds ! p = m \<and> (\<forall>j<p. ds ! j < m)"
    with len show ?thesis by auto
  qed
  have "\<forall>j<N. ds ! j \<le> m" using ub len by simp
  with sel sb len show ?thesis by auto
qed

lemma ts_rows_append:
  "ts_rows bv data N (xs @ ys) s =
     (case ts_rows bv data N xs s of Inl e \<Rightarrow> Inl e | Inr s' \<Rightarrow> ts_rows bv data N ys s')"
proof (induction xs arbitrary: s)
  case Nil
  then show ?case by simp
next
  case (Cons n ns)
  obtain sel rw pn g where s: "s = (sel, rw, pn, g)" by (cases s)
  show ?case unfolding s
    by (simp add: Cons.IH split: sum.splits prod.splits)
qed

lemma row_samples_nonneg:
  assumes beta: "\<forall>g a b d g'. bv g a b = Inr (d, g') \<longrightarrow> 0 \<le> d"
  shows "row_samples bv rw pn is g = Inr (ds, g') \<Longrightarrow> \<forall>d\<in>set ds. 0 \<le> d"
proof (induction "is" arbitrary: g ds)
  case Nil
  then show ?case by simp
next
  case (Cons i "is")
  from Cons.prems obtain d g1 ds' where
    d: "bv g (rw ! i + 1) (pn ! i + 1) = Inr (d, g1)"
    and rest: "row_samples bv rw pn is g1 = Inr (ds', g')" and ds: "ds = d # ds'"
    by (auto split: if_splits sum.splits)
  from beta d have "0 \<le> d" by blast
  with Cons.IH[OF rest] ds show ?case by simp
qed

lemma ts_rows_prefix:
  assumes run: "ts_rows bv data N [0..<B] ([], rw, pn, g) = Inr (sel, rw', pn', g')"
    and n: "n < B"
  shows "\<exists>rw_n pn_n g_n bandit beta_max g1.
           ts_rows bv data N [0..<n] ([], rw, pn, g) = Inr (take n sel, rw_n, pn_n, g_n) \<and>
           select_bandit bv rw_n pn_n [0..<N] (0, 0, g_n) = Inr (bandit, beta_max, g1) \<and>
           bandit < length (df_data data) \<and> sel ! n = bandit \<and> length sel = B"
proof -
  from n have split: "[0..<B] = [0..<n] @ (n # [Suc n..<B])"
    by (metis le_add_diff_inverse less_imp_le upt_add_eq_append upt_conv_Cons zero_le)
  from run obtain s_n where
    pre: "ts_rows bv data N [0..<n] ([], rw, pn, g) = Inr s_n"
    and post: "ts_rows bv data N (n # [Suc n..<B]) s_n = Inr (sel, rw', pn', g')"
    unfolding split ts_rows_append by (auto split: sum.splits)
  obtain sel_n rw_n pn_n g_n where s_n: "s_n = (sel_n, rw_n, pn_n, g_n)" by (cases s_n)
  from ts_rows_spec[OF pre[unfolded s_n]] have len_n: "length sel_n = n" by auto
  from post[unfolded s_n] obtain bandit beta_max g1 reward where
    sb: "select_bandit bv rw_n pn_n [0..<N] (0, 0, g_n) = Inr (bandit, beta_max, g1)"
    and va: "values_at data n bandit = Inr reward"
    by (auto split: sum.splits)
  from va have bd: "bandit < length (df_data data)"
    by (auto simp: values_at_def split: if_splits)
  from post[unfolded s_n] sb va obtain rw2 pn2 where
    rest: "ts_rows bv data N [Suc n..<B] (sel_n @ [bandit], rw2, pn2, g1) = Inr (sel, rw', pn', g')"
    by (auto split: if_splits)
  from ts_rows_spec[OF rest] obtain new where sel: "sel = (sel_n @ [bandit]) @ new" by auto
  from ts_rows_spec[OF run] have len: "length sel = B" by auto
  have "take n sel = sel_n" "sel ! n = bandit"
    using sel len_n by (simp_all add: nth_append)
  with pre s_n sb bd len show ?thesis by auto
qed

lemma posterior_mean_nonneg:
  "\<forall>g a b d g'. posterior_mean_source g a b = Inr (d, g') \<longrightarrow> 0 \<le> d"
  by (auto simp: posterior_mean_source_def split: if_splits)

text \<open>
  Claim C1. In every observation row the allocator draws one Beta sample per model, in index
  order, and selects the model with the greatest sample; of several models that attain the
  greatest sample it selects the one with the lowest index. Here \<open>model_selected\<close> is the
  list of the models the allocator records row by row, which the returned dictionary counts.
  Row \<open>n\<close> starts from the counters and the random source that the rows before it leave
  behind; \<open>ds\<close> are the samples drawn in that row, which a Beta distribution takes from
  \<open>[0, 1]\<close>. The model recorded for the row has a sample no smaller than any other model's
  and strictly greater than that of every model before it.
\<close>

theorem thompson_rows_select_first_maximum:
  assumes run: "thompson_sampling_experiment bv g data accs rewards penalties
                  = Inr (counts, rewards', penalties', g')"
    and beta: "\<forall>g a b d g'. bv g a b = Inr (d, g') \<longrightarrow> 0 \<le> d"
    and N: "N = length (df_columns data)"
  shows "\<exists>model_selected. counts = Counter model_selected \<and>
           length model_selected = df_len data \<and>
           (\<forall>n<df_len data. \<exists>rewards_n penalties_n g_n ds g_n'.
              ts_rows bv data N [0..<n] ([], rewards, penalties, g)
                = Inr (take n model_selected, rewards_n, penalties_n, g_n) \<and>
              row_samples bv rewards_n penalties_n [0..<N] g_n = Inr (ds, g_n') \<and>
              length ds = N \<and> model_selected ! n < N \<and>
              (\<forall>j<N. ds ! j \<le> ds ! (model_selected ! n)) \<and>
              (\<forall>j<model_selected ! n. ds ! j < ds ! (model_selected ! n)))"
proof -
  from run obtain sel where
    rows: "ts_rows bv data N [0..<df_len data] ([], rewards, penalties, g)
             = Inr (sel, rewards', penalties', g')"
    and counts: "counts = Counter sel"
    unfolding N
    by (auto simp: thompson_sampling_experiment_def Let_def split: if_splits sum.splits)
  from ts_rows_spec[OF rows] have len: "length sel = df_len data" by auto
  have row: "\<exists>rewards_n penalties_n g_n ds g_n'.
              ts_rows bv data N [0..<n] ([], rewards, penalties, g)
                = Inr (take n sel, rewards_n, penalties_n, g_n) \<and>
              row_samples bv rewards_n penalties_n [0..<N] g_n = Inr (ds, g_n') \<and>
              length ds = N \<and> sel ! n < N \<and>
              (\<forall>j<N. ds ! j \<le> ds ! (sel ! n)) \<and>
              (\<forall>j<sel ! n. ds ! j < ds ! (sel ! n))"
    if n: "n < df_len data" for n
  proof -
    from ts_rows_prefix[OF rows n] obtain rw_n pn_n g_n bandit beta_max g1 where
      pre: "ts_rows bv data N [0..<n] ([], rewards, penalties, g)
              = Inr (take n sel, rw_n, pn_n, g_n)"
      and sb: "select_bandit bv rw_n pn_n [0..<N] (0, 0, g_n) = Inr (bandit, beta_max, g1)"
      and bd: "bandit < length (df_data data)" and at: "sel ! n = bandit"
      by blast
    from bd have pos: "0 < N" unfolding N by (cases "df_data data") (simp_all add: df_columns_def)
    from select_bandit_samples[OF sb] obtain ds where
      ds: "row_samples bv rw_n pn_n [0..<N] g_n = Inr (ds, g1)" by blast
    from row_samples_nonneg[OF beta ds] have nn: "\<forall>d\<in>set ds. 0 \<le> d" .
    from select_bandit_first_maximum[OF ds nn pos] obtain b where
      b: "b < N" "length ds = N"
        "select_bandit bv rw_n pn_n [0..<N] (0, 0, g_n) = Inr (b, ds ! b, g1)"
        "\<forall>j<N. ds ! j \<le> ds ! b" "\<forall>j<b. ds ! j < ds ! b"
      by blast
    from b(3) sb have "b = bandit" by simp
    with b at have "length ds = N \<and> sel ! n < N \<and>
              (\<forall>j<N. ds ! j \<le> ds ! (sel ! n)) \<and> (\<forall>j<sel ! n. ds ! j < ds ! (sel ! n))"
      by simp
    with pre ds show ?thesis by blast
  qed
  show ?thesis
  proof (intro exI conjI)
    show "counts = Counter sel" by (rule counts)
    show "length sel = df_len data" by (rule len)
    show "\<forall>n<df_len data. \<exists>rewards_n penalties_n g_n ds g_n'.
              ts_rows bv data N [0..<n] ([], rewards, penalties, g)
                = Inr (take n sel, rewards_n, penalties_n, g_n) \<and>
              row_samples bv rewards_n penalties_n [0..<N] g_n = Inr (ds, g_n') \<and>
              length ds = N \<and> sel ! n < N \<and>
              (\<forall>j<N. ds ! j \<le> ds ! (sel ! n)) \<and>
              (\<forall>j<sel ! n. ds ! j < ds ! (sel ! n))"
      using row by blast
  qed
qed

theorem thompson_rows_select_first_maximum_witness:
  "\<exists>model_selected. [(0, 2)] = Counter model_selected \<and>
     length model_selected = 2 \<and>
     (\<exists>rewards_n penalties_n g_n ds g_n'.
        ts_rows posterior_mean_source
          \<lparr>df_index = [Pos 0, Pos 1], df_data = [(0::nat, [1, 0]), (1, [0, 1])]\<rparr> 2 [0..<1]
          ([], [0, 0], [0, 0], 0)
          = Inr (take 1 model_selected, rewards_n, penalties_n, g_n) \<and>
        row_samples posterior_mean_source rewards_n penalties_n [0..<2] g_n = Inr (ds, g_n') \<and>
        length ds = 2 \<and> model_selected ! 1 < 2 \<and>
        (\<forall>j<2. ds ! j \<le> ds ! (model_selected ! 1)) \<and>
        (\<forall>j<model_selected ! 1. ds ! j < ds ! (model_selected ! 1)))"
proof -
  let ?data = "\<lparr>df_index = [Pos 0, Pos 1], df_data = [(0::nat, [1, 0 :: int]), (1, [0, 1])]\<rparr>"
  have run: "thompson_sampling_experiment posterior_mean_source 0 ?data
     [1 / 2, 9 / 10] [0, 0] [0, 0] = Inr ([(0, 2)], [1, 0], [1, 0], 4)"
    by (simp add: thompson_sampling_experiment_def posterior_mean_source_def upt_rec
        df_len_def df_columns_def values_at_def Counter_def dict_get_def)
  have N: "(2::nat) = length (df_columns ?data)" by (simp add: df_columns_def)
  have B: "df_len ?data = 2" by (simp add: df_len_def)
  from thompson_rows_select_first_maximum[OF run posterior_mean_nonneg N]
  obtain sel where sel: "[(0, 2)] = Counter sel" "length sel = df_len ?data"
    and rows: "\<forall>n<df_len ?data. \<exists>rewards_n penalties_n g_n ds g_n'.
              ts_rows posterior_mean_source ?data 2 [0..<n] ([], [0, 0], [0, 0], 0)
                = Inr (take n sel, rewards_n, penalties_n, g_n) \<and>
              row_samples posterior_mean_source rewards_n penalties_n [0..<2] g_n = Inr (ds, g_n') \<and>
              length ds = 2 \<and> sel ! n < 2 \<and>
              (\<forall>j<2. ds ! j \<le> ds ! (sel ! n)) \<and>
              (\<forall>j<sel ! n. ds ! j < ds ! (sel ! n))"
    by blast
  have "(1::nat) < df_len ?data" unfolding B by simp
  from rows[rule_format, OF this] sel show ?thesis unfolding B by blast
qed

subsection \<open>Conservation of the selection counts\<close>

text \<open>
  Claim C2. Over one step of the allocator, the sum of a model's reward and penalty counters
  grows by the number of rows in which the model was selected: every row adds one to exactly
  one counter of the selected model, the reward counter when the model's reward cell in that
  row is 1 and the penalty counter otherwise. \<open>model_selected\<close> is the list of the models
  selected row by row, which the returned dictionary counts.
\<close>

theorem thompson_counter_conservation:
  assumes run: "thompson_sampling_experiment bv g data accs rewards penalties
                  = Inr (counts, rewards', penalties', g')"
  shows "length rewards' = length rewards \<and> length penalties' = length penalties \<and>
         (\<exists>model_selected. counts = Counter model_selected \<and>
            length model_selected = df_len data \<and>
            (\<forall>i<length rewards. rewards' ! i - rewards ! i
                 = int (rewarded data [0..<df_len data] model_selected i)) \<and>
            (\<forall>i<length penalties. penalties' ! i - penalties ! i
                 = int (penalised data [0..<df_len data] model_selected i)) \<and>
            (\<forall>i. rewarded data [0..<df_len data] model_selected i
                   + penalised data [0..<df_len data] model_selected i
                 = count_list model_selected i)) \<and>
         (\<forall>i. i < length rewards \<and> i < length penalties \<longrightarrow>
            (rewards' ! i + penalties' ! i) - (rewards ! i + penalties ! i) = dict_get counts i 0)"
proof -
  from run obtain sel where
    rows: "ts_rows bv data (length (df_columns data)) [0..<df_len data] ([], rewards, penalties, g)
             = Inr (sel, rewards', penalties', g')"
    and counts: "counts = Counter sel"
    by (auto simp: thompson_sampling_experiment_def Let_def split: if_splits sum.splits)
  from ts_rows_spec[OF rows] have
    len: "length sel = df_len data" "length rewards' = length rewards"
      "length penalties' = length penalties"
    and rw: "\<forall>i<length rewards. rewards' ! i = rewards ! i + int (rewarded data [0..<df_len data] sel i)"
    and pn: "\<forall>i<length penalties. penalties' ! i = penalties ! i + int (penalised data [0..<df_len data] sel i)"
    by auto
  have both: "rewarded data [0..<df_len data] sel i + penalised data [0..<df_len data] sel i
                = count_list sel i" for i
    using rewarded_penalised_count[of sel "[0..<df_len data]" data i] len(1) by simp
  have total: "(rewards' ! i + penalties' ! i) - (rewards ! i + penalties ! i) = dict_get counts i 0"
    if "i < length rewards \<and> i < length penalties" for i
  proof -
    have "(rewards' ! i + penalties' ! i) - (rewards ! i + penalties ! i)
            = int (rewarded data [0..<df_len data] sel i + penalised data [0..<df_len data] sel i)"
      using rw pn that by simp
    then show ?thesis by (simp add: both counts Counter_get)
  qed
  have ex: "\<exists>model_selected. counts = Counter model_selected \<and>
            length model_selected = df_len data \<and>
            (\<forall>i<length rewards. rewards' ! i - rewards ! i
                 = int (rewarded data [0..<df_len data] model_selected i)) \<and>
            (\<forall>i<length penalties. penalties' ! i - penalties ! i
                 = int (penalised data [0..<df_len data] model_selected i)) \<and>
            (\<forall>i. rewarded data [0..<df_len data] model_selected i
                   + penalised data [0..<df_len data] model_selected i
                 = count_list model_selected i)"
  proof (intro exI conjI)
    show "counts = Counter sel" by (rule counts)
    show "length sel = df_len data" by (rule len(1))
    show "\<forall>i<length rewards. rewards' ! i - rewards ! i
            = int (rewarded data [0..<df_len data] sel i)"
      using rw by simp
    show "\<forall>i<length penalties. penalties' ! i - penalties ! i
            = int (penalised data [0..<df_len data] sel i)"
      using pn by simp
    show "\<forall>i. rewarded data [0..<df_len data] sel i + penalised data [0..<df_len data] sel i
            = count_list sel i"
      using both by simp
  qed
  show ?thesis
  proof (intro conjI)
    show "length rewards' = length rewards" by (rule len(2))
    show "length penalties' = length penalties" by (rule len(3))
    show "\<exists>model_selected. counts = Counter model_selected \<and>
            length model_selected = df_len data \<and>
            (\<forall>i<length rewards. rewards' ! i - rewards ! i
                 = int (rewarded data [0..<df_len data] model_selected i)) \<and>
            (\<forall>i<length penalties. penalties' ! i - penalties ! i
                 = int (penalised data [0..<df_len data] model_selected i)) \<and>
            (\<forall>i. rewarded data [0..<df_len data] model_selected i
                   + penalised data [0..<df_len data] model_selected i
                 = count_list model_selected i)"
      by (rule ex)
    show "\<forall>i. i < length rewards \<and> i < length penalties \<longrightarrow>
            (rewards' ! i + penalties' ! i) - (rewards ! i + penalties ! i) = dict_get counts i 0"
      using total by blast
  qed
qed

theorem thompson_counter_conservation_witness:
  "thompson_sampling_experiment posterior_mean_source 0
     \<lparr>df_index = [Pos 0, Pos 1], df_data = [(0::nat, [1, 0]), (1, [0, 1])]\<rparr>
     [1 / 2, 9 / 10] [0, 0] [0, 0]
     = Inr ([(0, 2)], [1, 0], [1, 0], 4) \<and>
   ([1, 0] ! 0 + [1, 0] ! 0) - ([0, 0] ! 0 + [0, 0] ! 0) = dict_get [(0, 2)] 0 0 \<and>
   ([1, 0] ! 1 + [1, 0] ! 1) - ([0, 0] ! 1 + [0, 0] ! 1) = dict_get [(0, 2)] 1 0"
proof -
  have run: "thompson_sampling_experiment posterior_mean_source 0
     \<lparr>df_index = [Pos 0, Pos 1], df_data = [(0::nat, [1, 0]), (1, [0, 1])]\<rparr>
     [1 / 2, 9 / 10] [0, 0] [0, 0]
     = Inr ([(0, 2)], [1, 0], [1, 0], 4)"
    by (simp add: thompson_sampling_experiment_def posterior_mean_source_def upt_rec
        df_len_def df_columns_def values_at_def Counter_def dict_get_def)
  from thompson_counter_conservation[OF run]
  have all: "\<forall>i. i < length [0, 0 :: int] \<and> i < length [0, 0 :: int] \<longrightarrow>
      ([1, 0] ! i + [1, 0] ! i) - ([0, 0] ! i + [0, 0] ! i) = dict_get [(0, 2)] i 0"
    by (elim conjE)
  have "([1, 0] ! 0 + [1, 0] ! 0) - ([0, 0] ! 0 + [0, 0] ! 0) = dict_get [(0, 2)] 0 0"
    using all[rule_format, of 0] by simp
  moreover have "([1, 0] ! 1 + [1, 0] ! 1) - ([0, 0] ! 1 + [0, 0] ! 1) = dict_get [(0, 2)] 1 0"
    using all[rule_format, of 1] by simp
  ultimately show ?thesis using run by (intro conjI)
qed

subsection \<open>The counts sum to the batch size\<close>

text \<open>
  Claim C3. For a valid reward batch with \<open>B\<close> rows the allocator returns, and the values of
  the dictionary of counts it returns sum to \<open>B\<close>. The input is valid when the batch is
  rectangular with one column for each of at least one model, the state has one reward and
  one penalty counter per model, none of them negative, and the random source delivers a
  sample whenever both shape parameters are positive.
\<close>

theorem thompson_counts_sum_to_batch_size:
  assumes bv: "\<forall>g a b. 0 < a \<and> 0 < b \<longrightarrow> (\<exists>r. bv g a b = Inr r)"
    and wf: "well_formed data"
    and cols: "length (df_columns data) = length accs" and models: "0 < length accs"
    and len: "length rewards = length accs" "length penalties = length accs"
    and nonneg: "\<forall>x\<in>set rewards. 0 \<le> x" "\<forall>x\<in>set penalties. 0 \<le> x"
  shows "\<exists>counts rewards' penalties' g'.
           thompson_sampling_experiment bv g data accs rewards penalties
             = Inr (counts, rewards', penalties', g') \<and>
           sum_list (map snd counts) = int (df_len data)"
proof -
  let ?N = "length (df_columns data)"
  have N: "0 < ?N" "?N = length (df_data data)" using cols models by (simp_all add: df_columns_def)
  have "\<forall>n\<in>set [0..<df_len data]. n < df_len data" by simp
  from ts_rows_total[OF bv wf N nonneg _ _ this, of "[]" g] len cols
  obtain sel rewards' penalties' g' where
    rows: "ts_rows bv data ?N [0..<df_len data] ([], rewards, penalties, g)
             = Inr (sel, rewards', penalties', g')"
    by auto
  from ts_rows_spec[OF rows] have "length sel = df_len data" by auto
  then have "sum_list (map snd (Counter sel)) = int (df_len data)" by (simp add: Counter_sum)
  moreover have "thompson_sampling_experiment bv g data accs rewards penalties
                   = Inr (Counter sel, rewards', penalties', g')"
    using rows cols by (simp add: thompson_sampling_experiment_def)
  ultimately show ?thesis by blast
qed

theorem thompson_counts_sum_to_batch_size_witness:
  "(\<exists>counts rewards' penalties' g'.
      thompson_sampling_experiment posterior_mean_source 0
        \<lparr>df_index = [Pos 0, Pos 1], df_data = [(0::nat, [1, 0]), (1, [0, 1])]\<rparr>
        [1 / 2, 9 / 10] [0, 0] [0, 0]
        = Inr (counts, rewards', penalties', g') \<and>
      sum_list (map snd counts) = 2) \<and>
   well_formed \<lparr>df_index = [Pos 0, Pos 1], df_data = [(0::nat, [1, 0 :: int]), (1, [0, 1])]\<rparr>"
proof -
  let ?data = "\<lparr>df_index = [Pos 0, Pos 1], df_data = [(0::nat, [1, 0 :: int]), (1, [0, 1])]\<rparr>"
  have bv: "\<forall>g a b. 0 < a \<and> 0 < b \<longrightarrow> (\<exists>r. posterior_mean_source g a b = Inr r)"
    by (simp add: posterior_mean_source_def)
  have wf: "well_formed ?data" by (simp add: well_formed_def)
  have cols: "length (df_columns ?data) = length [1 / 2, 9 / 10 :: real]"
    by (simp add: df_columns_def)
  have models: "0 < length [1 / 2, 9 / 10 :: real]" by simp
  have len: "length [0, 0 :: int] = length [1 / 2, 9 / 10 :: real]" by simp
  have nonneg: "\<forall>x\<in>set [0, 0 :: int]. 0 \<le> x" by simp
  from thompson_counts_sum_to_batch_size[OF bv wf cols models len len nonneg nonneg, of 0] wf
  show ?thesis by (simp add: df_len_def)
qed

section \<open>Properties of the control allocator\<close>

lemma update_new_key:
  "k \<notin> fst ` set al \<Longrightarrow> AList.update k v al = al @ [(k, v)]"
  by (induction al) auto

lemma fold_update_range:
  "fold (\<lambda>i d. AList.update i b d) [0..<M] [] = map (\<lambda>i. (i, b)) [0..<M]"
proof (induction M)
  case 0
  then show ?case by simp
next
  case (Suc M)
  have "M \<notin> fst ` set (map (\<lambda>i. (i, b)) [0..<M])" by auto
  from update_new_key[OF this] Suc show ?case by simp
qed

lemma update_tabulated:
  "distinct xs \<Longrightarrow> k \<in> set xs \<Longrightarrow>
   AList.update k v (map (\<lambda>i. (i, f i)) xs) = map (\<lambda>i. (i, if i = k then v else f i)) xs"
proof (induction xs)
  case Nil
  then show ?case by simp
next
  case (Cons x xs)
  show ?case
  proof (cases "x = k")
    case True
    with Cons.prems have "k \<notin> set xs" by simp
    then have "map (\<lambda>i. (i, if i = k then v else f i)) xs = map (\<lambda>i. (i, f i)) xs"
      by (intro map_cong) auto
    with True show ?thesis by simp
  next
    case False
    with Cons show ?thesis by simp
  qed
qed

lemma map_of_tabulated:
  "k \<in> set xs \<Longrightarrow> map_of (map (\<lambda>i. (i, f i)) xs) k = Some (f k)"
  by (induction xs) auto

lemma increment_first_append:
  "increment_first (xs @ ys) d =
     (case increment_first xs d of Inl e \<Rightarrow> Inl e | Inr d' \<Rightarrow> increment_first ys d')"
  by (induction xs arbitrary: d) (auto split: option.splits)

lemma increment_first_range:
  "k \<le> M \<Longrightarrow>
   increment_first [0..<k] (map (\<lambda>i. (i, f i)) [0..<M])
     = Inr (map (\<lambda>i. (i, if i < k then f i + 1 else f i)) [0..<M])"
proof (induction k)
  case 0
  then show ?case by simp
next
  case (Suc k)
  let ?g = "\<lambda>i. if i < k then f i + 1 else f i"
  from Suc have k: "k \<in> set [0..<M]" by simp
  have "increment_first [k] (map (\<lambda>i. (i, ?g i)) [0..<M])
          = Inr (map (\<lambda>i. (i, if i = k then ?g k + 1 else ?g i)) [0..<M])"
    using map_of_tabulated[OF k, of ?g] update_tabulated[OF _ k, of "?g k + 1" ?g]
    by simp
  moreover have "map (\<lambda>i. (i, if i = k then ?g k + 1 else ?g i)) [0..<M]
                   = map (\<lambda>i. (i, if i < Suc k then f i + 1 else f i)) [0..<M]"
    by (intro map_cong) auto
  ultimately show ?case using Suc by (simp add: increment_first_append)
qed

lemma float_floor_quotient:
  fixes x :: real and B M :: nat
  assumes M: "0 < M" and close: "\<bar>x - real B / real M\<bar> < 1 / real M"
  shows "\<lfloor>x\<rfloor> = int (B div M) \<or> (B mod M = 0 \<and> \<lfloor>x\<rfloor> = int (B div M) - 1)"
proof -
  have "real B = real (B div M) * real M + real (B mod M)"
    by (metis of_nat_add of_nat_mult div_mult_mod_eq)
  then have quot: "real B / real M = real (B div M) + real (B mod M) / real M"
    using M by (simp add: field_simps)
  have inv: "1 / real M \<le> 1" using M by simp
  show ?thesis
  proof (cases "B mod M = 0")
    case True
    with quot close have "real (B div M) - 1 / real M < x" "x < real (B div M) + 1 / real M"
      by (simp_all add: abs_less_iff)
    with inv have "real (B div M) - 1 < x" "x < real (B div M) + 1" by linarith+
    then have "\<lfloor>x\<rfloor> = int (B div M) \<or> \<lfloor>x\<rfloor> = int (B div M) - 1"
      by linarith
    with True show ?thesis by simp
  next
    case False
    have "B mod M < M" using M by simp
    with False have "1 \<le> real (B mod M)" "real (B mod M) + 1 \<le> real M"
      by linarith+
    then have "1 / real M \<le> real (B mod M) / real M"
      "real (B mod M) / real M \<le> 1 - 1 / real M"
      using M by (simp_all add: field_simps)
    with quot close have "real (B div M) < x" "x < real (B div M) + 1"
      by (simp_all add: abs_less_iff)
    then have "\<lfloor>x\<rfloor> = int (B div M)" by linarith
    then show ?thesis by simp
  qed
qed


lemma sum_list_split_counts:
  "r \<le> M \<Longrightarrow>
   sum_list (map (\<lambda>i. q + (if i < r then 1 else 0)) [0..<M]) = int M * q + int r"
proof (induction M)
  case 0
  then show ?case by simp
next
  case (Suc M)
  show ?case
  proof (cases "r \<le> M")
    case True
    with Suc.IH show ?thesis by (simp add: algebra_simps)
  next
    case False
    with Suc.prems have r: "r = Suc M" by simp
    have eq: "map (\<lambda>i. q + (if i < r then 1 else 0)) [0..<M] = map (\<lambda>i. q + 1) [0..<M]"
      unfolding r by (intro map_cong) auto
    have "sum_list (map (\<lambda>i. q + 1) [0..<M]) = int M * (q + 1)"
      by (simp add: sum_list_triv)
    then have "sum_list (map (\<lambda>i. q + (if i < r then 1 else 0)) [0..<M]) = int M * (q + 1)"
      by (simp only: eq)
    then show ?thesis using r by (simp add: algebra_simps)
  qed
qed

lemma control_experiment_result:
  assumes B: "B = df_len data" and M: "M = length model_accuracies" and pos: "1 \<le> M"
    and close: "\<bar>fmul F (real B) (fdiv F 1 (real M)) - real B / real M\<bar> < 1 / real M"
  shows "control_experiment F data model_accuracies
           = Inr (map (\<lambda>i. (i, int (B div M) + (if i < B mod M then 1 else 0))) [0..<M])"
proof -
  let ?x = "fmul F (real B) (fdiv F 1 (real M))"
  let ?q = "int (B div M)"
  let ?cs = "map (\<lambda>i. (i, ?q + (if i < B mod M then 1 else 0))) [0..<M]"
  have M0: "0 < M" using pos by simp
  have r: "B mod M \<le> M" using M0 by (simp add: less_imp_le)
  have Bq: "int B = int M * ?q + int (B mod M)"
    by (metis of_nat_add of_nat_mult mult_div_mod_eq)
  have run: "control_experiment F data model_accuracies =
    (let cs0 = map (\<lambda>i. (i, \<lfloor>?x\<rfloor>)) [0..<M]; diff = int B - sum_list (map snd cs0)
     in if diff \<noteq> 0 then increment_first [0..<nat diff] cs0 else Inr cs0)"
    using M0 by (simp add: control_experiment_def B M fold_update_range Let_def)
  have sum0: "sum_list (map snd (map (\<lambda>i. (i, b)) [0..<M])) = int M * b" for b :: int
    by (simp add: comp_def sum_list_triv)
  from float_floor_quotient[OF M0 close] show ?thesis
  proof
    assume fl: "\<lfloor>?x\<rfloor> = ?q"
    have diff: "int B - sum_list (map snd (map (\<lambda>i. (i, ?q)) [0..<M])) = int (B mod M)"
      unfolding sum0 using Bq by linarith
    show ?thesis
    proof (cases "B mod M = 0")
      case True
      then have "?cs = map (\<lambda>i. (i, ?q)) [0..<M]" by simp
      with True diff show ?thesis by (simp add: run fl Let_def)
    next
      case False
      with diff increment_first_range[OF r, of "\<lambda>i. ?q"] show ?thesis
        by (simp add: run fl Let_def)
    qed
  next
    assume "B mod M = 0 \<and> \<lfloor>?x\<rfloor> = ?q - 1"
    then have z: "B mod M = 0" and fl: "\<lfloor>?x\<rfloor> = ?q - 1" by simp_all
    have diff: "int B - sum_list (map snd (map (\<lambda>i. (i, ?q - 1)) [0..<M])) = int M"
      unfolding sum0 using Bq z by (simp add: algebra_simps)
    have "map (\<lambda>i. (i, if i < M then ?q - 1 + 1 else ?q - 1)) [0..<M] = ?cs"
      using z by (intro map_cong) auto
    with diff increment_first_range[of M M "\<lambda>i. ?q - 1"] M0 show ?thesis
      by (simp add: run fl Let_def)
  qed
qed

text \<open>
  Claim C4. For a batch of \<open>B\<close> rows and \<open>M \<ge> 1\<close> models the control allocator returns the
  count \<open>B div M + 1\<close> for the models \<open>0, \<dots>, r - 1\<close> and \<open>B div M\<close> for the others, where
  \<open>r = B mod M = B - M * (B div M)\<close>. The result is a function of \<open>B\<close> and \<open>M\<close> alone, so
  the reward cells play no part; the counts sum to \<open>B\<close> and any two of them differ by at most 1.
  The code takes the floor of the float product \<open>B * (1 / M)\<close>: the statement holds whenever
  that product is within \<open>1 / M\<close> of the quotient \<open>B / M\<close>, which leaves room for its rounding
  error (a product that falls just below a whole quotient makes the floor one too small, and
  the remainder loop then adds one to every model).
\<close>

theorem control_even_split:
  assumes B: "B = df_len data" and M: "M = length model_accuracies" and pos: "1 \<le> M"
    and close: "\<bar>fmul F (real B) (fdiv F 1 (real M)) - real B / real M\<bar> < 1 / real M"
  shows "\<exists>cs. control_experiment F data model_accuracies = Inr cs \<and>
           cs = map (\<lambda>i. (i, int (B div M) + (if i < B mod M then 1 else 0))) [0..<M] \<and>
           sum_list (map snd cs) = int B \<and>
           (\<forall>c\<in>set (map snd cs). \<forall>c'\<in>set (map snd cs). \<bar>c - c'\<bar> \<le> 1)"
proof -
  let ?q = "int (B div M)"
  let ?cs = "map (\<lambda>i. (i, ?q + (if i < B mod M then 1 else 0))) [0..<M]"
  have r: "B mod M \<le> M" using pos by (simp add: less_imp_le)
  have Bq: "int B = int M * ?q + int (B mod M)"
    by (metis of_nat_add of_nat_mult mult_div_mod_eq)
  have vals: "map snd ?cs = map (\<lambda>i. ?q + (if i < B mod M then 1 else 0)) [0..<M]"
    by (simp add: comp_def)
  have total: "sum_list (map snd ?cs) = int B"
    unfolding vals using sum_list_split_counts[OF r, of ?q] Bq by simp
  have near: "\<forall>c\<in>set (map snd ?cs). \<forall>c'\<in>set (map snd ?cs). \<bar>c - c'\<bar> \<le> 1"
    unfolding vals by auto
  from control_experiment_result[OF B M pos close] total near show ?thesis by blast
qed

theorem control_even_split_witness:
  "\<exists>cs. control_experiment exact_ops
          \<lparr>df_index = map Pos [0..<10],
           df_data = [(0::nat, replicate 10 (1::int)), (1, replicate 10 0), (2, replicate 10 1)]\<rparr>
          [9 / 10, 1 / 2, 7 / 10] = Inr cs \<and>
        cs = [(0, 4), (1, 3), (2, 3)] \<and> sum_list (map snd cs) = 10"
proof -
  let ?data = "\<lparr>df_index = map Pos [0..<10],
           df_data = [(0::nat, replicate 10 (1::int)), (1, replicate 10 0), (2, replicate 10 1)]\<rparr>"
  have B: "(10::nat) = df_len ?data" by (simp add: df_len_def)
  have M: "(3::nat) = length [9 / 10, 1 / 2, 7 / 10 :: real]" by simp
  have pos: "(1::nat) \<le> 3" by simp
  have close: "\<bar>fmul exact_ops (real 10) (fdiv exact_ops 1 (real 3)) - real 10 / real 3\<bar>
                 < 1 / real 3"
    by (simp add: exact_ops_def)
  have "map (\<lambda>i. (i, int (10 div 3) + (if i < 10 mod 3 then 1 else 0))) [0..<3]
          = [(0, 4), (1, 3), (2, 3)]"
    by (simp add: upt_rec)
  with control_even_split[OF B M pos close] show ?thesis by simp
qed

section \<open>Keys of the allocation counts\<close>

lemma thompson_keys_selected:
  assumes run: "thompson_sampling_experiment bv g data accs rewards penalties
                  = Inr (cs, rewards', penalties', g')"
  shows "\<exists>model_selected.
           ts_rows bv data (length (df_columns data)) [0..<df_len data]
             ([], rewards, penalties, g) = Inr (model_selected, rewards', penalties', g') \<and>
           length model_selected = df_len data \<and>
           (\<forall>n<df_len data. \<exists>rewards_n penalties_n g_n beta_max g_n'.
              ts_rows bv data (length (df_columns data)) [0..<n] ([], rewards, penalties, g)
                = Inr (take n model_selected, rewards_n, penalties_n, g_n) \<and>
              select_bandit bv rewards_n penalties_n [0..<length (df_columns data)] (0, 0, g_n)
                = Inr (model_selected ! n, beta_max, g_n')) \<and>
           set (map fst cs) = set model_selected \<and>
           set model_selected \<subseteq> {0..<length accs} \<and> distinct (map fst cs) \<and>
           (\<forall>i. dict_get cs i 0 = int (count_list model_selected i))"
proof -
  let ?N = "length (df_columns data)"
  from run have cols: "?N = length accs"
    by (auto simp: thompson_sampling_experiment_def Let_def split: if_splits)
  from run obtain sel where
    rows: "ts_rows bv data ?N [0..<df_len data] ([], rewards, penalties, g)
             = Inr (sel, rewards', penalties', g')"
    and cs: "cs = Counter sel"
    by (auto simp: thompson_sampling_experiment_def Let_def split: if_splits sum.splits)
  from ts_rows_spec[OF rows] have len: "length sel = df_len data"
    and below: "\<forall>b\<in>set sel. b < length (df_data data)" by auto
  from below have sub: "set sel \<subseteq> {0..<length accs}"
    using cols by (auto simp: df_columns_def)
  have scan: "\<forall>n<df_len data. \<exists>rewards_n penalties_n g_n beta_max g_n'.
              ts_rows bv data ?N [0..<n] ([], rewards, penalties, g)
                = Inr (take n sel, rewards_n, penalties_n, g_n) \<and>
              select_bandit bv rewards_n penalties_n [0..<?N] (0, 0, g_n)
                = Inr (sel ! n, beta_max, g_n')"
  proof (intro allI impI)
    fix n assume "n < df_len data"
    from ts_rows_prefix[OF rows this]
    show "\<exists>rewards_n penalties_n g_n beta_max g_n'.
              ts_rows bv data ?N [0..<n] ([], rewards, penalties, g)
                = Inr (take n sel, rewards_n, penalties_n, g_n) \<and>
              select_bandit bv rewards_n penalties_n [0..<?N] (0, 0, g_n)
                = Inr (sel ! n, beta_max, g_n')"
      by blast
  qed
  show ?thesis
  proof (intro exI conjI)
    show "ts_rows bv data ?N [0..<df_len data] ([], rewards, penalties, g)
            = Inr (sel, rewards', penalties', g')" by (rule rows)
    show "length sel = df_len data" by (rule len)
    show "\<forall>n<df_len data. \<exists>rewards_n penalties_n g_n beta_max g_n'.
              ts_rows bv data ?N [0..<n] ([], rewards, penalties, g)
                = Inr (take n sel, rewards_n, penalties_n, g_n) \<and>
              select_bandit bv rewards_n penalties_n [0..<?N] (0, 0, g_n)
                = Inr (sel ! n, beta_max, g_n')" by (rule scan)
    show "set (map fst cs) = set sel" unfolding cs by (rule Counter_keys)
    show "set sel \<subseteq> {0..<length accs}" by (rule sub)
    show "distinct (map fst cs)" unfolding cs by (rule Counter_distinct)
    show "\<forall>i. dict_get cs i 0 = int (count_list sel i)" unfolding cs by (simp add: Counter_get)
  qed
qed

text \<open>
  Claim C5 says that both allocators return a dictionary whose keys are all the model
  indices \<open>0, \<dots>, N - 1\<close>. The Thompson Sampling allocator returns \<open>dict(Counter(model_selected))\<close>,
  which has a key only for a model that was selected: on a batch of one row over two models
  one model is selected and the other is no key of the result.
\<close>

theorem allocation_keys_counterexample:
  "thompson_sampling_experiment posterior_mean_source 0
     \<lparr>df_index = [Pos 0], df_data = [(0::nat, [1]), (1, [0])]\<rparr> [1 / 2, 9 / 10] [0, 0] [0, 0]
     = Inr ([(0, 1)], [1, 0], [0, 0], 2) \<and>
   (1::nat) \<in> {0..<length [1 / 2, 9 / 10 :: real]} \<and>
   (1::nat) \<notin> set (map fst [(0::nat, 1::int)])"
proof -
  have run: "thompson_sampling_experiment posterior_mean_source 0
     \<lparr>df_index = [Pos 0], df_data = [(0::nat, [1]), (1, [0])]\<rparr> [1 / 2, 9 / 10] [0, 0] [0, 0]
     = Inr ([(0, 1)], [1, 0], [0, 0], 2)"
    by (simp add: thompson_sampling_experiment_def posterior_mean_source_def upt_rec
        df_len_def df_columns_def values_at_def Counter_def dict_get_def)
  have m: "(1::nat) \<in> {0..<length [1 / 2, 9 / 10 :: real]}" by simp
  have k: "(1::nat) \<notin> set (map fst [(0::nat, 1::int)])" by simp
  from run m k show ?thesis by (intro conjI)
qed

text \<open>
  Claim C5 as amended. The control allocator returns the keys \<open>0, \<dots>, N - 1\<close> in this order.
  The keys of the Thompson Sampling allocator's result are exactly the models selected in
  some row of the step: \<open>model_selected\<close> lists, row by row, the model that the scan of
  the row returns, the keys are the distinct members of this list, all below \<open>N\<close>, and the
  value of a key is the number of rows in which it was selected. A model that no row
  selects is no key; normalisation fills it in later.
\<close>

theorem allocation_keys:
  "(1 \<le> length accs \<and>
    \<bar>fmul F (real (df_len data)) (fdiv F 1 (real (length accs)))
        - real (df_len data) / real (length accs)\<bar> < 1 / real (length accs)
    \<longrightarrow> (\<exists>cs. control_experiment F data accs = Inr cs \<and> map fst cs = [0..<length accs])) \<and>
   (thompson_sampling_experiment bv g data' accs rewards penalties
      = Inr (cs', rewards', penalties', g')
    \<longrightarrow> (\<exists>model_selected.
           ts_rows bv data' (length (df_columns data')) [0..<df_len data']
             ([], rewards, penalties, g) = Inr (model_selected, rewards', penalties', g') \<and>
           length model_selected = df_len data' \<and>
           (\<forall>n<df_len data'. \<exists>rewards_n penalties_n g_n beta_max g_n'.
              ts_rows bv data' (length (df_columns data')) [0..<n] ([], rewards, penalties, g)
                = Inr (take n model_selected, rewards_n, penalties_n, g_n) \<and>
              select_bandit bv rewards_n penalties_n [0..<length (df_columns data')] (0, 0, g_n)
                = Inr (model_selected ! n, beta_max, g_n')) \<and>
           set (map fst cs') = set model_selected \<and>
           set model_selected \<subseteq> {0..<length accs} \<and> distinct (map fst cs') \<and>
           (\<forall>i. dict_get cs' i 0 = int (count_list model_selected i))))"
proof (intro conjI impI)
  assume a: "1 \<le> length accs \<and>
    \<bar>fmul F (real (df_len data)) (fdiv F 1 (real (length accs)))
        - real (df_len data) / real (length accs)\<bar> < 1 / real (length accs)"
  then have "control_experiment F data accs
      = Inr (map (\<lambda>i. (i, int (df_len data div length accs)
                 + (if i < df_len data mod length accs then 1 else 0))) [0..<length accs])"
    by (intro control_experiment_result) simp_all
  then show "\<exists>cs. control_experiment F data accs = Inr cs \<and> map fst cs = [0..<length accs]"
    by (simp add: comp_def)
next
  assume "thompson_sampling_experiment bv g data' accs rewards penalties
      = Inr (cs', rewards', penalties', g')"
  then show "\<exists>model_selected.
           ts_rows bv data' (length (df_columns data')) [0..<df_len data']
             ([], rewards, penalties, g) = Inr (model_selected, rewards', penalties', g') \<and>
           length model_selected = df_len data' \<and>
           (\<forall>n<df_len data'. \<exists>rewards_n penalties_n g_n beta_max g_n'.
              ts_rows bv data' (length (df_columns data')) [0..<n] ([], rewards, penalties, g)
                = Inr (take n model_selected, rewards_n, penalties_n, g_n) \<and>
              select_bandit bv rewards_n penalties_n [0..<length (df_columns data')] (0, 0, g_n)
                = Inr (model_selected ! n, beta_max, g_n')) \<and>
           set (map fst cs') = set model_selected \<and>
           set model_selected \<subseteq> {0..<length accs} \<and> distinct (map fst cs') \<and>
           (\<forall>i. dict_get cs' i 0 = int (count_list model_selected i))"
    by (rule thompson_keys_selected)
qed

theorem allocation_keys_witness:
  "(\<exists>cs. control_experiment exact_ops
       \<lparr>df_index = [Pos 0], df_data = [(0::nat, [1::int]), (1, [0])]\<rparr> [1 / 2, 9 / 10] = Inr cs \<and>
       map fst cs = [0, 1]) \<and>
   thompson_sampling_experiment posterior_mean_source 0
     \<lparr>df_index = [Pos 0], df_data = [(0::nat, [1]), (1, [0])]\<rparr> [1 / 2, 9 / 10] [0, 0] [0, 0]
     = Inr ([(0, 1)], [1, 0], [0, 0], 2) \<and>
   (\<exists>model_selected. length model_selected = 1 \<and>
      set (map fst [(0::nat, 1::int)]) = set model_selected \<and>
      set model_selected \<subseteq> {0..<length [1 / 2, 9 / 10 :: real]})"
proof -
  let ?data = "\<lparr>df_index = [Pos 0], df_data = [(0::nat, [1::int]), (1, [0])]\<rparr>"
  let ?accs = "[1 / 2, 9 / 10 :: real]"
  have h: "1 \<le> length ?accs \<and>
    \<bar>fmul exact_ops (real (df_len ?data)) (fdiv exact_ops 1 (real (length ?accs)))
        - real (df_len ?data) / real (length ?accs)\<bar> < 1 / real (length ?accs)"
    by (simp add: exact_ops_def df_len_def)
  have run: "thompson_sampling_experiment posterior_mean_source 0 ?data ?accs [0, 0] [0, 0]
     = Inr ([(0, 1)], [1, 0], [0, 0], 2)"
    by (simp add: thompson_sampling_experiment_def posterior_mean_source_def upt_rec
        df_len_def df_columns_def values_at_def Counter_def dict_get_def)
  note both = allocation_keys[of ?accs exact_ops ?data posterior_mean_source 0 ?data
      "[0, 0]" "[0, 0]" "[(0, 1)]" "[1, 0]" "[0, 0]" 2]
  have two: "[0..<length ?accs] = [0, 1]" by (simp add: upt_rec)
  from both[THEN conjunct1, THEN mp, OF h]
  have c: "\<exists>cs. control_experiment exact_ops ?data ?accs = Inr cs \<and> map fst cs = [0, 1]"
    unfolding two .
  from both[THEN conjunct2, THEN mp, OF run] obtain sel where
    "length sel = df_len ?data" "set (map fst [(0::nat, 1::int)]) = set sel"
    "set sel \<subseteq> {0..<length ?accs}"
    by blast
  then have t: "\<exists>model_selected. length model_selected = 1 \<and>
      set (map fst [(0::nat, 1::int)]) = set model_selected \<and>
      set model_selected \<subseteq> {0..<length [1 / 2, 9 / 10 :: real]}"
    by (intro exI[of _ sel]) (simp add: df_len_def)
  from c run t show ?thesis by (intro conjI)
qed

section \<open>Validation of the arguments\<close>

lemma select_bandit_short_state:
  assumes bv: "\<forall>g a b. 0 < a \<and> 0 < b \<longrightarrow> (\<exists>r. bv g a b = Inr r)"
    and rw: "\<forall>x\<in>set rw. 0 \<le> x" and pn: "\<forall>x\<in>set pn. 0 \<le> x"
  shows "\<exists>i\<in>set is. length rw \<le> i \<or> length pn \<le> i \<Longrightarrow>
         select_bandit bv rw pn is (b, m, g) = Inl IndexError"
proof (induction "is" arbitrary: b m g)
  case Nil
  then show ?case by simp
next
  case (Cons i "is")
  show ?case
  proof (cases "length rw \<le> i \<or> length pn \<le> i")
    case True
    then show ?thesis by simp
  next
    case False
    then have i: "i < length rw" "i < length pn" by simp_all
    then have "0 < rw ! i + 1" "0 < pn ! i + 1"
      using rw pn by (simp_all add: add_pos_nonneg add.commute)
    with bv obtain d g1 where d: "bv g (rw ! i + 1) (pn ! i + 1) = Inr (d, g1)"
      by (metis surj_pair)
    from Cons.prems False have "\<exists>i\<in>set is. length rw \<le> i \<or> length pn \<le> i" by auto
    from Cons.IH[OF this] d False show ?thesis by simp
  qed
qed

lemma thompson_short_state:
  assumes bv: "\<forall>g a b. 0 < a \<and> 0 < b \<longrightarrow> (\<exists>r. bv g a b = Inr r)"
    and rw: "\<forall>x\<in>set rw. 0 \<le> x" and pn: "\<forall>x\<in>set pn. 0 \<le> x"
    and cols: "length (df_columns data) = length accs"
    and short: "length rw < length accs \<or> length pn < length accs"
    and rows: "0 < df_len data"
  shows "thompson_sampling_experiment bv g data accs rw pn = Inl IndexError"
proof -
  from short have "\<exists>i\<in>set [0..<length accs]. length rw \<le> i \<or> length pn \<le> i"
    by auto
  from select_bandit_short_state[OF bv rw pn this]
  have sb: "select_bandit bv rw pn [0..<length accs] (0, 0, g) = Inl IndexError" .
  from rows have "[0..<df_len data] = 0 # [1..<df_len data]"
    by (simp add: upt_conv_Cons)
  with sb cols show ?thesis
    by (simp add: thompson_sampling_experiment_def)
qed

lemma thompson_returns:
  assumes bv: "\<forall>g a b. 0 < a \<and> 0 < b \<longrightarrow> (\<exists>r. bv g a b = Inr r)"
    and wf: "well_formed data"
    and cols: "length (df_columns data) = length accs" and models: "0 < length accs"
    and len: "length accs \<le> length rw" "length accs \<le> length pn"
    and nonneg: "\<forall>x\<in>set rw. 0 \<le> x" "\<forall>x\<in>set pn. 0 \<le> x"
  shows "\<exists>cs rw' pn' g'. thompson_sampling_experiment bv g data accs rw pn = Inr (cs, rw', pn', g')"
proof -
  let ?N = "length (df_columns data)"
  have N: "0 < ?N" "?N = length (df_data data)" using cols models by (simp_all add: df_columns_def)
  have "\<forall>n\<in>set [0..<df_len data]. n < df_len data" by simp
  from ts_rows_total[OF bv wf N nonneg _ _ this, of "[]" g] len cols
  obtain sel rw' pn' g' where
    "ts_rows bv data ?N [0..<df_len data] ([], rw, pn, g) = Inr (sel, rw', pn', g')"
    by auto
  then show ?thesis using cols by (simp add: thompson_sampling_experiment_def)
qed

lemma draw_columns_error:
  "draw_columns bn g i ps n = Inl e \<Longrightarrow> \<exists>g' p. p \<in> set ps \<and> bn g' 1 p n = Inl e"
proof (induction ps arbitrary: g i)
  case Nil
  then show ?case by simp
next
  case (Cons p ps)
  show ?case
  proof (cases "bn g 1 p n")
    case (Inl e')
    with Cons.prems have "e' = e" by simp
    with Inl show ?thesis by auto
  next
    case (Inr r)
    obtain col g1 where r: "r = (col, g1)" by (cases r)
    with Inr Cons.prems have "draw_columns bn g1 (Suc i) ps n = Inl e"
      by (auto split: sum.splits)
    from Cons.IH[OF this] show ?thesis by auto
  qed
qed

lemma generator_error:
  assumes "create_simulated_reward_data bn rng accs n = Inl e"
  shows "(\<exists>g' p. p \<in> set accs \<and> bn g' 1 p n = Inl e) \<or> e = ValueError"
proof (cases "draw_columns bn rng 0 accs n")
  case (Inl e')
  with assms have "e' = e" by (simp add: create_simulated_reward_data_def)
  with Inl draw_columns_error[of bn rng 0 accs n e] show ?thesis by simp
next
  case (Inr r)
  obtain cols g1 where "r = (cols, g1)" by (cases r)
  with Inr assms have "DataFrame_of_columns cols = Inl e"
    by (simp add: create_simulated_reward_data_def)
  then have "e = ValueError"
    by (auto simp: DataFrame_of_columns_def split: list.splits if_splits)
  then show ?thesis by simp
qed

lemma draw_columns_threshold_ok:
  "list_all (\<lambda>p. 0 \<le> p \<and> p \<le> 1) ps \<Longrightarrow> 0 \<le> n \<Longrightarrow>
   \<exists>cols g'. draw_columns threshold_binomial g i ps n = Inr (cols, g') \<and>
     length cols = length ps \<and> list_all (\<lambda>c. length (snd c) = nat n) cols"
proof (induction ps arbitrary: g i)
  case Nil
  then show ?case by simp
next
  case (Cons p ps)
  from Cons.prems have p: "\<not> (p < 0 \<or> 1 < p \<or> n < 0)" and rest: "list_all (\<lambda>p. 0 \<le> p \<and> p \<le> 1) ps"
    by auto
  from Cons.IH[OF rest Cons.prems(2), of "Suc g" "Suc i"] obtain cols g' where
    "draw_columns threshold_binomial (Suc g) (Suc i) ps n = Inr (cols, g')"
    "length cols = length ps" "list_all (\<lambda>c. length (snd c) = nat n) cols"
    by blast
  moreover have "threshold_binomial g 1 p n
      = Inr (replicate (nat n) (if 1 / 2 \<le> p then 1 else 0), Suc g)"
    using p by (simp add: threshold_binomial_def)
  ultimately show ?case by simp
qed

lemma draw_columns_threshold_bad:
  "ps \<noteq> [] \<Longrightarrow> n < 0 \<or> (\<exists>p\<in>set ps. p < 0 \<or> 1 < p) \<Longrightarrow>
   draw_columns threshold_binomial g i ps n = Inl ValueError"
proof (induction ps arbitrary: g i)
  case Nil
  then show ?case by simp
next
  case (Cons p ps)
  show ?case
  proof (cases "p < 0 \<or> 1 < p \<or> n < 0")
    case True
    then have "threshold_binomial g 1 p n = Inl ValueError"
      by (simp add: threshold_binomial_def)
    then show ?thesis by simp
  next
    case False
    with Cons.prems have bad: "\<exists>p\<in>set ps. p < 0 \<or> 1 < p" by auto
    then have "ps \<noteq> []" by auto
    moreover have "threshold_binomial g 1 p n
        = Inr (replicate (nat n) (if 1 / 2 \<le> p then 1 else 0), Suc g)"
      using False by (simp add: threshold_binomial_def)
    ultimately show ?thesis using Cons.IH[of "Suc g" "Suc i"] bad by simp
  qed
qed

lemma generator_threshold_ok:
  assumes "list_all (\<lambda>p. 0 \<le> p \<and> p \<le> 1) ps" and "0 \<le> n"
  shows "\<exists>df. create_simulated_reward_data threshold_binomial g ps n = Inr df \<and>
           length (df_columns df) = length ps \<and> df_len df = (if ps = [] then 0 else nat n)"
proof -
  from draw_columns_threshold_ok[OF assms, of g 0] obtain cols g' where
    c: "draw_columns threshold_binomial g 0 ps n = Inr (cols, g')"
      "length cols = length ps" "list_all (\<lambda>c. length (snd c) = nat n) cols"
    by blast
  show ?thesis
  proof (cases cols)
    case Nil
    with c show ?thesis
      by (simp add: create_simulated_reward_data_def DataFrame_of_columns_def df_len_def df_columns_def)
  next
    case (Cons x xs)
    with c(3) have "list_all (\<lambda>c'. length (snd c') = length (snd x)) xs"
      by (simp add: list_all_iff)
    with c Cons show ?thesis
      by (auto simp: create_simulated_reward_data_def DataFrame_of_columns_def df_len_def df_columns_def)
  qed
qed

text \<open>
  Claim C6 says that the reward generator rejects a batch size below 1 and an accuracy
  outside \<open>[0, 1]\<close>, and that the Thompson Sampling allocator rejects a batch whose number
  of models differs from the number of entries of the bandit state. The allocator's only
  check is the assertion that compares the batch's columns with \<open>model_accuracies\<close>: a batch
  of two models with a state of three entries is processed without an error.
\<close>

theorem validation_counterexample:
  "length (df_columns \<lparr>df_index = [Pos 0], df_data = [(0::nat, [1::int]), (1, [0])]\<rparr>)
     \<noteq> length [0, 0, 0 :: int] \<and>
   thompson_sampling_experiment posterior_mean_source 0
     \<lparr>df_index = [Pos 0], df_data = [(0::nat, [1]), (1, [0])]\<rparr> [1 / 2, 9 / 10]
     [0, 0, 0] [0, 0, 0]
     = Inr ([(0, 1)], [1, 0, 0], [0, 0, 0], 2)"
  by (simp add: thompson_sampling_experiment_def posterior_mean_source_def upt_rec
      df_len_def df_columns_def values_at_def Counter_def dict_get_def)

text \<open>
  Claim C6 as amended. The Thompson Sampling allocator fails with an \<open>AssertionError\<close>,
  before it reads a row, when the batch's number of columns differs from the number of
  accuracies; it does not compare the bandit state with anything. With matching accuracies
  a state of at least as many entries as models is accepted, and a shorter state fails with
  an \<open>IndexError\<close> in the scan of the first row. The reward generator has no check of its
  own: it fails only where the binomial sampler raises (or where pandas refuses columns of
  different lengths). With numpy's argument checks that is a \<open>ValueError\<close> for a negative
  batch size or an accuracy outside \<open>[0, 1]\<close>, while a batch size of 0 gives a batch
  without rows.
\<close>

theorem validation_as_implemented:
  "(length (df_columns data) \<noteq> length accs \<longrightarrow>
      thompson_sampling_experiment bv g data accs rw pn = Inl AssertionError) \<and>
   (length (df_columns data) = length accs \<and> 0 < length accs \<and> well_formed data \<and>
    length accs \<le> length rw \<and> length accs \<le> length pn \<and>
    (\<forall>x\<in>set rw. 0 \<le> x) \<and> (\<forall>x\<in>set pn. 0 \<le> x) \<and>
    (\<forall>g a b. 0 < a \<and> 0 < b \<longrightarrow> (\<exists>r. bv g a b = Inr r)) \<longrightarrow>
      (\<exists>cs rw' pn' g'.
         thompson_sampling_experiment bv g data accs rw pn = Inr (cs, rw', pn', g'))) \<and>
   (length (df_columns data) = length accs \<and>
    (length rw < length accs \<or> length pn < length accs) \<and> 0 < df_len data \<and>
    (\<forall>x\<in>set rw. 0 \<le> x) \<and> (\<forall>x\<in>set pn. 0 \<le> x) \<and>
    (\<forall>g a b. 0 < a \<and> 0 < b \<longrightarrow> (\<exists>r. bv g a b = Inr r)) \<longrightarrow>
      thompson_sampling_experiment bv g data accs rw pn = Inl IndexError) \<and>
   (create_simulated_reward_data bn rng ps n = Inl e \<longrightarrow>
      (\<exists>g' p. p \<in> set ps \<and> bn g' 1 p n = Inl e) \<or> e = ValueError) \<and>
   (ps \<noteq> [] \<and> (n < 0 \<or> (\<exists>p\<in>set ps. p < 0 \<or> 1 < p)) \<longrightarrow>
      create_simulated_reward_data threshold_binomial k ps n = Inl ValueError) \<and>
   (list_all (\<lambda>p. 0 \<le> p \<and> p \<le> 1) ps \<and> 0 \<le> n \<longrightarrow>
      (\<exists>df. create_simulated_reward_data threshold_binomial k ps n = Inr df \<and>
         length (df_columns df) = length ps \<and>
         df_len df = (if ps = [] then 0 else nat n)))"
proof (intro conjI impI)
  assume "length (df_columns data) \<noteq> length accs"
  then show "thompson_sampling_experiment bv g data accs rw pn = Inl AssertionError"
    by (simp add: thompson_sampling_experiment_def)
next
  assume a: "length (df_columns data) = length accs \<and> 0 < length accs \<and> well_formed data \<and>
    length accs \<le> length rw \<and> length accs \<le> length pn \<and>
    (\<forall>x\<in>set rw. 0 \<le> x) \<and> (\<forall>x\<in>set pn. 0 \<le> x) \<and>
    (\<forall>g a b. 0 < a \<and> 0 < b \<longrightarrow> (\<exists>r. bv g a b = Inr r))"
  then show "\<exists>cs rw' pn' g'.
         thompson_sampling_experiment bv g data accs rw pn = Inr (cs, rw', pn', g')"
    by (intro thompson_returns) (elim conjE, assumption)+
next
  assume a: "length (df_columns data) = length accs \<and>
    (length rw < length accs \<or> length pn < length accs) \<and> 0 < df_len data \<and>
    (\<forall>x\<in>set rw. 0 \<le> x) \<and> (\<forall>x\<in>set pn. 0 \<le> x) \<and>
    (\<forall>g a b. 0 < a \<and> 0 < b \<longrightarrow> (\<exists>r. bv g a b = Inr r))"
  then show "thompson_sampling_experiment bv g data accs rw pn = Inl IndexError"
    by (intro thompson_short_state) (elim conjE, assumption)+
next
  assume "create_simulated_reward_data bn rng ps n = Inl e"
  then show "(\<exists>g' p. p \<in> set ps \<and> bn g' 1 p n = Inl e) \<or> e = ValueError"
    by (rule generator_error)
next
  assume a: "ps \<noteq> [] \<and> (n < 0 \<or> (\<exists>p\<in>set ps. p < 0 \<or> 1 < p))"
  then have "draw_columns threshold_binomial k 0 ps n = Inl ValueError"
    by (intro draw_columns_threshold_bad) simp_all
  then show "create_simulated_reward_data threshold_binomial k ps n = Inl ValueError"
    by (simp add: create_simulated_reward_data_def)
next
  assume a: "list_all (\<lambda>p. 0 \<le> p \<and> p \<le> 1) ps \<and> 0 \<le> n"
  then show "\<exists>df. create_simulated_reward_data threshold_binomial k ps n = Inr df \<and>
         length (df_columns df) = length ps \<and>
         df_len df = (if ps = [] then 0 else nat n)"
    by (intro generator_threshold_ok) simp_all
qed

theorem validation_as_implemented_witness:
  "thompson_sampling_experiment posterior_mean_source 0
     \<lparr>df_index = [Pos 0], df_data = [(0::nat, [1]), (1, [0])]\<rparr> [1 / 2] [0, 0] [0, 0]
     = Inl AssertionError \<and>
   (\<exists>cs rw' pn' g'.
      thompson_sampling_experiment posterior_mean_source 0
        \<lparr>df_index = [Pos 0], df_data = [(0::nat, [1]), (1, [0])]\<rparr> [1 / 2, 9 / 10]
        [0, 0, 0] [0, 0, 0] = Inr (cs, rw', pn', g')) \<and>
   thompson_sampling_experiment posterior_mean_source 0
     \<lparr>df_index = [Pos 0], df_data = [(0::nat, [1]), (1, [0])]\<rparr> [1 / 2, 9 / 10] [0] [0]
     = Inl IndexError \<and>
   ((\<exists>g' p. p \<in> set [3 / 2] \<and> threshold_binomial g' 1 p 5 = Inl ValueError)
      \<or> ValueError = ValueError) \<and>
   create_simulated_reward_data threshold_binomial 0 [1 / 2] (- 1) = Inl ValueError \<and>
   (\<exists>df. create_simulated_reward_data threshold_binomial 0 [1 / 2] 0 = Inr df \<and>
      length (df_columns df) = length [1 / 2 :: real] \<and>
      df_len df = (if [1 / 2 :: real] = [] then 0 else nat 0))"
proof -
  let ?data = "\<lparr>df_index = [Pos 0], df_data = [(0::nat, [1::int]), (1, [0])]\<rparr>"
  have c1: "thompson_sampling_experiment posterior_mean_source 0 ?data [1 / 2] [0, 0] [0, 0]
              = Inl AssertionError"
    by (rule validation_as_implemented[THEN conjunct1, THEN mp]) (simp add: df_columns_def)
  have c2: "\<exists>cs rw' pn' g'.
      thompson_sampling_experiment posterior_mean_source 0 ?data [1 / 2, 9 / 10]
        [0, 0, 0] [0, 0, 0] = Inr (cs, rw', pn', g')"
    by (rule validation_as_implemented[THEN conjunct2, THEN conjunct1, THEN mp])
      (simp add: df_columns_def well_formed_def posterior_mean_source_def)
  have c3: "thompson_sampling_experiment posterior_mean_source 0 ?data [1 / 2, 9 / 10] [0] [0]
              = Inl IndexError"
    by (rule validation_as_implemented[THEN conjunct2, THEN conjunct2, THEN conjunct1, THEN mp])
      (simp add: df_columns_def df_len_def posterior_mean_source_def)
  have "create_simulated_reward_data threshold_binomial 0 [3 / 2] 5 = Inl ValueError"
    by (simp add: create_simulated_reward_data_def threshold_binomial_def)
  then have c4: "(\<exists>g' p. p \<in> set [3 / 2] \<and> threshold_binomial g' 1 p 5 = Inl ValueError)
      \<or> ValueError = ValueError"
    by (rule validation_as_implemented[THEN conjunct2, THEN conjunct2, THEN conjunct2,
          THEN conjunct1, THEN mp])
  have c5: "create_simulated_reward_data threshold_binomial 0 [1 / 2] (- 1) = Inl ValueError"
    by (rule validation_as_implemented[THEN conjunct2, THEN conjunct2, THEN conjunct2,
          THEN conjunct2, THEN conjunct1, THEN mp]) simp
  have c6: "\<exists>df. create_simulated_reward_data threshold_binomial 0 [1 / 2] 0 = Inr df \<and>
      length (df_columns df) = length [1 / 2 :: real] \<and>
      df_len df = (if [1 / 2 :: real] = [] then 0 else nat 0)"
    by (rule validation_as_implemented[THEN conjunct2, THEN conjunct2, THEN conjunct2,
          THEN conjunct2, THEN conjunct2, THEN mp]) simp
  from c1 c2 c3 c4 c5 c6 show ?thesis by (intro conjI)
qed

section \<open>Properties of the aggregator\<close>

subsection \<open>Machine integers and exact arithmetic\<close>





text \<open>The definitions that the evaluation of a concrete table unfolds.\<close>

lemmas table_eval =
  misclassifications_def format_as_dataframe_def DataFrame_of_records_def key_union_def
  fillna_astype_int_def object_column_def append_sum_row_def create_misclassification_df_def misclassified_def
  scale_factor_def df_times_def round_half_even_def exact_ops_def int64_def in_int64_def
  Let_def upt_rec

subsection \<open>Normalisation\<close>















subsection \<open>Misclassification cells\<close>












subsection \<open>Cumulative cost\<close>













subsection \<open>Headline totals\<close>




lemma example_control_run:
  "misclassifications exact_ops [[(0, 5), (1, 5)], [(0, 5), (1, 5)]] [9 / 10, 1 / 2] 1000 2 10
     = Inr \<lparr>df_index = [Pos 0, Pos 1, Name ''Totals''],
            df_data = [(0, [0, 0, 50]), (1, [100, 100, 250])]\<rparr>"
  by (simp add: table_eval)




end
